theory Spec2Isabelle
  imports Main
begin

section \<open>Python strings and built-ins used by the scrubber\<close>

text \<open>
  A Python \<open>str\<close> is a list of code points and a code point is a natural number, so
  \<open>length\<close> counts what Python's \<open>len\<close> counts. \<open>code\<close> gives the code point of a
  character of a literal and \<open>lit\<close> the text of a literal.
\<close>

datatype py_error = IndexError | ValueError | AssertionError | OSError | UnicodeDecodeError

type_synonym cp = nat

type_synonym str = "cp list"

definition code :: "char \<Rightarrow> cp" where
  "code c = of_char c"

definition lit :: "string \<Rightarrow> str" where
  "lit s = map code s"

text \<open>
  What Python takes from the Unicode character database is a parameter \<open>U\<close> of the
  model, consulted for the code points from 256 on: the lowercase form of a code point
  standing between the code points before and after it (\<open>str.lower\<close> gives one to three
  code points for each code point, and looks at the neighbours of a capital sigma), the
  alphabetic code points (\<open>str.isalpha\<close>), the decimal digits (\<open>\\d\<close>) and the white
  space (\<open>\\s\<close>). Below 256 the classes are written out. So is the lowercase form of
  U+0130, which is two code points long: \<open>i\<close> and U+0307.
\<close>

record unicode =
  to_lower :: "str \<Rightarrow> cp \<Rightarrow> str \<Rightarrow> str"
  is_alpha :: "cp \<Rightarrow> bool"
  is_decimal :: "cp \<Rightarrow> bool"
  is_space :: "cp \<Rightarrow> bool"

definition isdigit :: "unicode \<Rightarrow> cp \<Rightarrow> bool" where
  "isdigit U c = (if c < 256 then 48 \<le> c \<and> c \<le> 57 else is_decimal U c)"

text \<open>
  Unicode's decimal digits and white space are disjoint; the definition keeps them so
  for every table.
\<close>

definition isspace :: "unicode \<Rightarrow> cp \<Rightarrow> bool" where
  "isspace U c =
     (if c < 256 then (9 \<le> c \<and> c \<le> 13) \<or> (28 \<le> c \<and> c \<le> 32) \<or> c = 133 \<or> c = 160
      else is_space U c \<and> \<not> is_decimal U c)"

definition isalpha :: "unicode \<Rightarrow> cp \<Rightarrow> bool" where
  "isalpha U c =
     (if c < 256 then
        (65 \<le> c \<and> c \<le> 90) \<or> (97 \<le> c \<and> c \<le> 122) \<or> c = 170 \<or> c = 181 \<or> c = 186
        \<or> (192 \<le> c \<and> c \<le> 214) \<or> (216 \<le> c \<and> c \<le> 246) \<or> (248 \<le> c \<and> c \<le> 255)
      else is_alpha U c)"

definition lower_latin :: "cp \<Rightarrow> cp" where
  "lower_latin c =
     (if (65 \<le> c \<and> c \<le> 90) \<or> (192 \<le> c \<and> c \<le> 214) \<or> (216 \<le> c \<and> c \<le> 222)
      then c + 32 else c)"

definition lower_cp :: "unicode \<Rightarrow> str \<Rightarrow> cp \<Rightarrow> str \<Rightarrow> str" where
  "lower_cp U before c after =
     (if c < 256 then [lower_latin c]
      else if c = 304 then [105, 775]
      else to_lower U before c after)"

fun lower_from :: "unicode \<Rightarrow> str \<Rightarrow> str \<Rightarrow> str" where
  "lower_from U before [] = []"
| "lower_from U before (c # after) =
     lower_cp U before c after @ lower_from U (before @ [c]) after"

definition lower :: "unicode \<Rightarrow> str \<Rightarrow> str" where
  "lower U s = lower_from U [] s"

text \<open>\<open>occurs s sub i\<close>: the substring \<open>sub\<close> starts at index \<open>i\<close> of \<open>s\<close>.\<close>

definition occurs :: "str \<Rightarrow> str \<Rightarrow> nat \<Rightarrow> bool" where
  "occurs s sub i = (take (length sub) (drop i s) = sub)"

text \<open>\<open>str.find\<close> and \<open>str.rfind\<close>: lowest and highest index of \<open>sub\<close>, or \<open>-1\<close>.\<close>

definition find_str :: "str \<Rightarrow> str \<Rightarrow> int" where
  "find_str s sub =
     (case filter (occurs s sub) [0..<Suc (length s)] of [] \<Rightarrow> - 1 | i # _ \<Rightarrow> int i)"

definition rfind :: "str \<Rightarrow> str \<Rightarrow> int" where
  "rfind s sub =
     (case filter (occurs s sub) [0..<Suc (length s)] of [] \<Rightarrow> - 1 | i # is \<Rightarrow> int (last (i # is)))"

text \<open>\<open>s[i]\<close> with Python's negative indices; out of range raises \<open>IndexError\<close>.\<close>

definition getitem :: "str \<Rightarrow> int \<Rightarrow> py_error + cp" where
  "getitem s i =
     (let n = int (length s); j = (if i < 0 then n + i else i)
      in if 0 \<le> j \<and> j < n then Inr (s ! nat j) else Inl IndexError)"

text \<open>\<open>max(xs)\<close> and \<open>min(xs)\<close> of a list; the empty list raises \<open>ValueError\<close>.\<close>

definition py_max :: "int list \<Rightarrow> py_error + int" where
  "py_max xs = (case xs of [] \<Rightarrow> Inl ValueError | x # ys \<Rightarrow> Inr (fold max ys x))"

definition py_min :: "int list \<Rightarrow> py_error + int" where
  "py_min xs = (case xs of [] \<Rightarrow> Inl ValueError | x # ys \<Rightarrow> Inr (fold min ys x))"

section \<open>The scrubber's configuration\<close>

definition output_folder :: string where
  "output_folder = ''preprocessed''"

definition separator :: str where
  "separator = lit ''====''"

definition stopstrings_front :: "str list" where
  "stopstrings_front = map lit [''cited'', ''license'', ''credited'', ''lawful purpose'']"

definition stopstrings_body :: "str list" where
  "stopstrings_body = map lit [''acknowledgements'', ''supporting information'']"

section \<open>Boundary cuts\<close>

text \<open>
  \<open>cut_head\<close>: the cut index is the largest end of a last occurrence of a stopstring in
  the lowercased text (\<open>-1\<close> for an absent one). When it is positive the code reads
  \<open>text[start_idx+1]\<close>, and, under a length test, \<open>text[start_idx+2]\<close>, before slicing.
\<close>

definition cut_head :: "unicode \<Rightarrow> str \<Rightarrow> str list \<Rightarrow> py_error + str" where
  "cut_head U text stopstrings =
     (case py_max (map (\<lambda>string. rfind (lower U text) string
                          + int (length string) * of_bool (rfind (lower U text) string \<noteq> - 1))
                    stopstrings) of
        Inl e \<Rightarrow> Inl e
      | Inr start_idx \<Rightarrow>
         (case (if start_idx > 0 then
                  (case getitem text (start_idx + 1) of
                     Inl e \<Rightarrow> Inl e
                   | Inr c1 \<Rightarrow>
                      if \<not> isalpha U c1 then
                        (if \<not> (int (length text) \<ge> start_idx + 2) then
                           (case getitem text (start_idx + 2) of
                              Inl e \<Rightarrow> Inl e
                            | Inr c2 \<Rightarrow>
                               if isalpha U c2 then Inr (start_idx + 2) else Inr (start_idx + 1))
                         else Inr (start_idx + 1))
                      else Inr start_idx)
                else Inr start_idx) of
            Inl e \<Rightarrow> Inl e
          | Inr idx \<Rightarrow> Inr (drop (nat (min (int (length text)) (max idx 0))) text)))"

text \<open>
  \<open>cut_tail\<close>: the cut index is the smallest first occurrence of a stopstring in the
  lowercased text, an absent one counting as \<open>len(text)\<close>; the index found in
  \<open>text.lower()\<close> is then used on the text itself, and \<open>text[:end_idx]\<close> follows
  Python's slice rule for a negative bound and for a bound past the end.
\<close>

definition slice_to :: "str \<Rightarrow> int \<Rightarrow> str" where
  "slice_to s e = (if e < 0 then take (nat (int (length s) + e)) s else take (nat e) s)"

definition cut_tail :: "unicode \<Rightarrow> str \<Rightarrow> str list \<Rightarrow> py_error + str" where
  "cut_tail U text stopstrings =
     (case py_min (map (\<lambda>string. find_str (lower U text) string
                          + (int (length text) + 1) * of_bool (find_str (lower U text) string = - 1))
                    stopstrings) of
        Inl e \<Rightarrow> Inl e
      | Inr end_idx \<Rightarrow> Inr (slice_to text end_idx))"

section \<open>Regular expressions\<close>

text \<open>
  A pattern is a backtracking matcher in continuation style: applied to the text at the
  current position it returns the text left after the first match in Python's priority
  order, or \<open>None\<close>. \<open>ch P k\<close> reads one character of class \<open>P\<close> and goes on with \<open>k\<close>;
  \<open>star P k\<close> is the greedy \<open>P*\<close>: it first tries to read one more character and falls
  back to \<open>k\<close> at the current position.
\<close>

type_synonym matcher = "str \<Rightarrow> str option"

definition ch :: "(cp \<Rightarrow> bool) \<Rightarrow> matcher \<Rightarrow> matcher" where
  "ch P k s = (case s of [] \<Rightarrow> None | c # cs \<Rightarrow> if P c then k cs else None)"

fun star :: "(cp \<Rightarrow> bool) \<Rightarrow> matcher \<Rightarrow> matcher" where
  "star P k [] = k []"
| "star P k (c # cs) =
     (if P c then (case star P k cs of Some r \<Rightarrow> Some r | None \<Rightarrow> k (c # cs))
      else k (c # cs))"

definition alt :: "matcher \<Rightarrow> matcher \<Rightarrow> matcher" where
  "alt m1 m2 s = (case m1 s of Some r \<Rightarrow> Some r | None \<Rightarrow> m2 s)"

text \<open>
  \<open>re.sub(pattern, repl, text)\<close>: the text is scanned from the left; a non-empty match is
  replaced and the scan goes on after it, an empty match is replaced and the character
  at that position is copied (Python 3.7 and later).
\<close>

function re_sub :: "matcher \<Rightarrow> str \<Rightarrow> str \<Rightarrow> str" where
  "re_sub m repl [] = (case m [] of Some r \<Rightarrow> repl | None \<Rightarrow> [])"
| "re_sub m repl (c # cs) =
     (case m (c # cs) of
        None \<Rightarrow> c # re_sub m repl cs
      | Some r \<Rightarrow>
         if length r < length (c # cs) then repl @ re_sub m repl r
         else repl @ c # re_sub m repl cs)"
  by pat_completeness auto
termination
  by (relation "measure (\<lambda>(m, repl, s). length s)") auto

text \<open>The character classes of the five patterns.\<close>

definition is_char :: "cp \<Rightarrow> cp \<Rightarrow> bool" where
  "is_char a c = (c = a)"

definition dot :: "cp \<Rightarrow> bool" where
  "dot c = (c \<noteq> code CHR ''\<newline>'')"

definition allowed :: "cp \<Rightarrow> bool" where
  "allowed c = ((97 \<le> c \<and> c \<le> 122) \<or> (65 \<le> c \<and> c \<le> 90)
     \<or> (48 \<le> c \<and> c \<le> 57)
     \<or> c = code CHR ''!'' \<or> c = code CHR ''?'' \<or> c = code CHR '','' \<or> c = code CHR ''.''
     \<or> c = code CHR ''-'' \<or> c = code CHR ''\<newline>'')"

definition stop :: "cp \<Rightarrow> bool" where
  "stop c = (c = code CHR ''!'' \<or> c = code CHR ''?'' \<or> c = code CHR ''.'')"

text \<open>\<^verbatim>\<open>\[\d+\]|\(\d+\)\<close>\<close>

definition pat_citing :: "unicode \<Rightarrow> matcher" where
  "pat_citing U =
     alt (ch (is_char (code CHR ''['')) (ch (isdigit U) (star (isdigit U)
            (ch (is_char (code CHR '']'')) Some))))
         (ch (is_char (code CHR ''('')) (ch (isdigit U) (star (isdigit U)
            (ch (is_char (code CHR '')'')) Some))))"

text \<open>\<^verbatim>\<open>\(.*[,]\s*\d{4}.*\)\<close>\<close>

definition pat_refs :: "unicode \<Rightarrow> matcher" where
  "pat_refs U =
     ch (is_char (code CHR ''('')) (star dot (ch (is_char (code CHR '','')) (star (isspace U)
       (ch (isdigit U) (ch (isdigit U) (ch (isdigit U) (ch (isdigit U)
         (star dot (ch (is_char (code CHR '')'')) Some)))))))))"

text \<open>\<^verbatim>\<open>[^a-zA-Z0-9!?,.\-\n]\<close>, \<^verbatim>\<open>[!?.]+\<close> and \<^verbatim>\<open> {2,}\<close>\<close>

definition pat_symbol :: matcher where
  "pat_symbol = ch (\<lambda>c. \<not> allowed c) Some"

definition pat_stops :: matcher where
  "pat_stops = ch stop (star stop Some)"

definition pat_spaces :: matcher where
  "pat_spaces =
     ch (is_char (code CHR '' '')) (ch (is_char (code CHR '' ''))
       (star (is_char (code CHR '' '')) Some))"

section \<open>Pattern stripping and normalization\<close>

definition remove_citing :: "unicode \<Rightarrow> str \<Rightarrow> str" where
  "remove_citing U text = re_sub (pat_citing U) (lit '' '') text"

definition remove_refs :: "unicode \<Rightarrow> str \<Rightarrow> str" where
  "remove_refs U text = re_sub (pat_refs U) (lit '' '') text"

definition normalize :: "unicode \<Rightarrow> str \<Rightarrow> str" where
  "normalize U text =
     (let processed_text = remove_citing U text;
          processed_text = remove_refs U processed_text;
          processed_text = re_sub pat_symbol (lit '' '') processed_text;
          processed_text = re_sub pat_stops (lit ''.'') processed_text;
          processed_text = re_sub pat_spaces (lit '' '') processed_text
      in processed_text)"

section \<open>Splitting a document and preprocessing its segments\<close>

text \<open>
  \<open>text.split(sep)\<close> for a non-empty separator: the text is cut at every occurrence found
  scanning from the left; an empty separator raises \<open>ValueError\<close>.
\<close>

function split_from :: "'a list \<Rightarrow> 'a list \<Rightarrow> 'a list \<Rightarrow> 'a list list" where
  "split_from sep acc [] = [acc]"
| "split_from sep acc (c # cs) =
     (if sep \<noteq> [] \<and> take (length sep) (c # cs) = sep
      then acc # split_from sep [] (drop (length sep) (c # cs))
      else split_from sep (acc @ [c]) cs)"
  by pat_completeness auto
termination
  by (relation "measure (\<lambda>(sep, acc, s). length s)") auto

definition split_str :: "str \<Rightarrow> str \<Rightarrow> py_error + str list" where
  "split_str text sep = (if sep = [] then Inl ValueError else Inr (split_from sep [] text))"

text \<open>
  Lines 173--181 of \<open>__call__\<close>: \<open>front, body = text.split(separator)[1:3]\<close> succeeds when
  the slice has exactly two elements; any exception selects the fallback.
\<close>

definition sections :: "str \<Rightarrow> str \<times> str" where
  "sections text =
     (case split_str text separator of
        Inl e \<Rightarrow> ([], text)
      | Inr parts \<Rightarrow>
         (case take 2 (drop 1 parts) of
            [front, body] \<Rightarrow> (front, body)
          | _ \<Rightarrow> ([], text)))"

definition preprocess :: "unicode \<Rightarrow> str \<Rightarrow> string \<Rightarrow> py_error + str" where
  "preprocess U text mode =
     (if mode \<notin> set [''front'', ''body''] then Inl AssertionError
      else case (if mode = ''front'' then cut_head U text stopstrings_front
                 else cut_tail U text stopstrings_body) of
             Inl e \<Rightarrow> Inl e
           | Inr processed_text \<Rightarrow> Inr (normalize U processed_text))"

text \<open>Lines 173--187 of \<open>__call__\<close>: from the text read to the text written.\<close>

definition scrub_text :: "unicode \<Rightarrow> str \<Rightarrow> py_error + str" where
  "scrub_text U text =
     (case sections text of
        (front, body) \<Rightarrow>
          (case preprocess U front ''front'' of
             Inl e \<Rightarrow> Inl e
           | Inr preprocessed_front \<Rightarrow>
              (case preprocess U body ''body'' of
                 Inl e \<Rightarrow> Inl e
               | Inr preprocessed_body \<Rightarrow>
                  Inr (preprocessed_front @ lit ''\<newline>'' @ preprocessed_body))))"

section \<open>Files and the batch driver\<close>

text \<open>
  The operating system is a parameter: a record of the primitives the scrubber calls,
  acting on a world \<open>'w\<close>. A primitive that can raise returns the exception as a value;
  one that changes the world returns the new world, also when it raises. Every
  \<open>py_error\<close> is a subclass of \<open>Exception\<close>. Paths are POSIX paths (\<open>os.sep\<close> is \<open>/\<close>).
\<close>

type_synonym path = string

record 'w os =
  os_path_exists :: "path \<Rightarrow> 'w \<Rightarrow> bool"
  os_path_isfile :: "path \<Rightarrow> 'w \<Rightarrow> bool"
  os_mkdir :: "path \<Rightarrow> 'w \<Rightarrow> py_error option \<times> 'w"
  os_listdir :: "path \<Rightarrow> 'w \<Rightarrow> py_error + string list"
  read_file :: "path \<Rightarrow> 'w \<Rightarrow> py_error + str"
  write_file :: "path \<Rightarrow> str \<Rightarrow> 'w \<Rightarrow> py_error option \<times> 'w"

definition path_split :: "path \<Rightarrow> string list" where
  "path_split p = split_from ''/'' [] p"

fun sep_join :: "string list \<Rightarrow> string" where
  "sep_join [] = []"
| "sep_join [x] = x"
| "sep_join (x # y # ys) = x @ ''/'' @ sep_join (y # ys)"

definition os_path_join :: "path \<Rightarrow> path \<Rightarrow> path" where
  "os_path_join a b =
     (if take 1 b = ''/'' then b
      else if a = [] \<or> last a = CHR ''/'' then a @ b
      else a @ ''/'' @ b)"

definition call ::
  "unicode \<Rightarrow> 'w os \<Rightarrow> path \<Rightarrow> path option \<Rightarrow> 'w \<Rightarrow> py_error option \<times> 'w" where
  "call U os path output_dir w =
     (let output_dir =
            (case output_dir of
               None \<Rightarrow> os_path_join
                         (sep_join (take (length (path_split path) - 2) (path_split path)))
                         output_folder
             | Some d \<Rightarrow> d)
      in case (if \<not> os_path_exists os output_dir w then os_mkdir os output_dir w
               else (None, w)) of
           (Some e, w1) \<Rightarrow> (Some e, w1)
         | (None, w1) \<Rightarrow>
            (case read_file os path w1 of
               Inl e \<Rightarrow> (Some e, w1)
             | Inr text \<Rightarrow>
                (case scrub_text U text of
                   Inl e \<Rightarrow> (Some e, w1)
                 | Inr preprocessed_text \<Rightarrow>
                    write_file os (os_path_join output_dir (last (path_split path)))
                      preprocessed_text w1)))"

text \<open>
  The state of a batch run: the world, the two counters and the lines printed so far.
  \<open>scrub_file\<close> is the body of the inner loop of \<open>scrub_pmc\<close>, with its
  \<open>try ... except Exception\<close>; \<open>scrub_folders\<close> is the outer loop, where
  \<open>os.listdir(folder)\<close> stands outside any handler. The result of \<open>scrub_pmc\<close> is the
  exception that left it, if any, and the state reached; the summary prints the counters.
  Writing a line to standard output is taken not to raise.
\<close>

datatype log_line = Started path | Success path | Failed path py_error

record 'w run =
  world :: 'w
  nScrubbed :: nat
  nFailed :: nat
  printed :: "log_line list"

definition scrub_file ::
  "unicode \<Rightarrow> 'w os \<Rightarrow> path \<Rightarrow> path \<Rightarrow> string \<Rightarrow> 'w run \<Rightarrow> 'w run" where
  "scrub_file U os output_path folder filename st =
     (let path = os_path_join folder filename
      in if os_path_isfile os path (world st) then
           (case call U os path (Some output_path) (world st) of
              (None, w') \<Rightarrow>
                st\<lparr>world := w', printed := printed st @ [Success path],
                   nScrubbed := nScrubbed st + 1\<rparr>
            | (Some e, w') \<Rightarrow>
                st\<lparr>world := w', printed := printed st @ [Failed path e],
                   nFailed := nFailed st + 1\<rparr>)
         else st)"

fun scrub_folders ::
  "unicode \<Rightarrow> 'w os \<Rightarrow> path \<Rightarrow> path list \<Rightarrow> 'w run \<Rightarrow> py_error option \<times> 'w run" where
  "scrub_folders U os output_path [] st = (None, st)"
| "scrub_folders U os output_path (folder # folders) st =
     (case os_listdir os folder (world st) of
        Inl e \<Rightarrow> (Some e, st\<lparr>printed := printed st @ [Started folder]\<rparr>)
      | Inr filenames \<Rightarrow>
         scrub_folders U os output_path folders
           (fold (scrub_file U os output_path folder) filenames
              (st\<lparr>printed := printed st @ [Started folder]\<rparr>)))"

definition scrub_pmc :: "unicode \<Rightarrow> 'w os \<Rightarrow> path \<Rightarrow> 'w \<Rightarrow> py_error option \<times> 'w run" where
  "scrub_pmc U os pmc_folder w =
     (let st = \<lparr>world = w, nScrubbed = 0, nFailed = 0, printed = []\<rparr>
      in case os_listdir os pmc_folder w of
           Inl e \<Rightarrow> (Some e, st)
         | Inr names \<Rightarrow>
            (let folders = map (os_path_join pmc_folder) names;
                 suffix = last (path_split pmc_folder) @ ''_'' @ output_folder;
                 output_path = os_path_join (sep_join (butlast (path_split pmc_folder))) suffix
             in scrub_folders U os output_path folders st))"

text \<open>
  An in-memory file system on which the driver can be run: directories with their
  entries, regular files with their text (\<open>None\<close> for a file whose bytes are not UTF-8),
  and a flag telling whether directories may be created.
\<close>

record fs =
  listing :: "(path \<times> string list) list"
  contents :: "(path \<times> str option) list"
  may_mkdir :: bool

definition mem_os :: "fs os" where
  "mem_os =
     \<lparr>os_path_exists = (\<lambda>p w. map_of (listing w) p \<noteq> None \<or> map_of (contents w) p \<noteq> None),
      os_path_isfile = (\<lambda>p w. map_of (contents w) p \<noteq> None),
      os_mkdir = (\<lambda>p w. if may_mkdir w then (None, w\<lparr>listing := (p, []) # listing w\<rparr>)
                         else (Some OSError, w)),
      os_listdir = (\<lambda>p w. case map_of (listing w) p of
                             None \<Rightarrow> Inl OSError | Some names \<Rightarrow> Inr names),
      read_file = (\<lambda>p w. case map_of (contents w) p of
                            None \<Rightarrow> Inl OSError
                          | Some None \<Rightarrow> Inl UnicodeDecodeError
                          | Some (Some text) \<Rightarrow> Inr text),
      write_file = (\<lambda>p text w. (None, w\<lparr>contents := (p, Some text) # contents w\<rparr>))\<rparr>"

definition corpus :: "bool \<Rightarrow> fs" where
  "corpus writable =
     \<lparr>listing = [(''data/pmc'', [''a'', ''b'']), (''data/pmc/a'', [''1.txt'', ''2.txt'', ''notes'']),
                 (''data/pmc/b'', [''3.txt'']), (''data/pmc/a/notes'', [])],
      contents = [(''data/pmc/a/1.txt'', Some (lit ''====T====B!'')),
                  (''data/pmc/a/2.txt'', None),
                  (''data/pmc/b/3.txt'', Some (lit ''Hi?''))],
      may_mkdir = writable\<rparr>"

text \<open>The same corpus with a regular file among the folders of the corpus directory.\<close>

definition stray_corpus :: fs where
  "stray_corpus =
     (corpus True)
       \<lparr>listing := (''data/pmc'', [''a'', ''b'', ''README'']) # listing (corpus True),
        contents := (''data/pmc/README'', Some (lit ''Corpus.'')) # contents (corpus True)\<rparr>"

section \<open>Notions used to state the properties\<close>

text \<open>
  A batch run in the words of the specification. \<open>output_path_of\<close> is the directory the
  run writes to, beside the corpus directory and named after it. \<open>corpus_paths\<close> are the
  entries of the folders of a corpus, in the order of the run, for a corpus directory
  that holds the folders \<open>names\<close>, the folder \<open>d\<close> holding the entries \<open>files d\<close>.
\<close>

definition output_path_of :: "path \<Rightarrow> path" where
  "output_path_of pmc_folder =
     os_path_join (sep_join (butlast (path_split pmc_folder)))
       (last (path_split pmc_folder) @ ''_'' @ output_folder)"

definition corpus_paths :: "path \<Rightarrow> string list \<Rightarrow> (string \<Rightarrow> string list) \<Rightarrow> path list" where
  "corpus_paths pmc_folder names files =
     concat (map (\<lambda>d. map (os_path_join (os_path_join pmc_folder d)) (files d)) names)"

text \<open>
  The characters that may remain after normalization: ASCII letters and digits, comma,
  period, hyphen, newline and space.
\<close>

definition clean :: "cp \<Rightarrow> bool" where
  "clean c = ((97 \<le> c \<and> c \<le> 122) \<or> (65 \<le> c \<and> c \<le> 90)
     \<or> (48 \<le> c \<and> c \<le> 57)
     \<or> c \<in> {code CHR '','', code CHR ''.'', code CHR ''-'', code CHR ''\<newline>'', code CHR '' ''})"

text \<open>
  The back cut in the words of the specification: the first case-insensitive occurrence
  of each marker, and the minimum start index over the markers that occur; the length of
  the text when none occurs.
\<close>

definition first_occurrence :: "unicode \<Rightarrow> str \<Rightarrow> str \<Rightarrow> nat option" where
  "first_occurrence U text marker =
     List.find (\<lambda>i. lower U (take (length marker) (drop i text)) = marker) [0..<Suc (length text)]"

definition locateBackCut :: "unicode \<Rightarrow> str \<Rightarrow> str list \<Rightarrow> nat" where
  "locateBackCut U text stopstrings =
     (case List.map_filter (first_occurrence U text) stopstrings of
        [] \<Rightarrow> length text
      | i # is \<Rightarrow> Min (set (i # is)))"

text \<open>
  The value \<open>cut_tail\<close> computes for one stopstring: the index of its first occurrence
  in the lowercased text, or the length of the text.
\<close>

definition back_value :: "unicode \<Rightarrow> str \<Rightarrow> str \<Rightarrow> int" where
  "back_value U text string =
     find_str (lower U text) string
       + (int (length text) + 1) * of_bool (find_str (lower U text) string = - 1)"

text \<open>
  \<open>text.count(sep)\<close> for a non-empty \<open>sep\<close>: the number of occurrences met scanning from
  the left, each one starting after the end of the one before.
\<close>

function count_str :: "'a list \<Rightarrow> 'a list \<Rightarrow> nat" where
  "count_str [] sep = 0"
| "count_str (c # cs) sep =
     (if sep \<noteq> [] \<and> take (length sep) (c # cs) = sep
      then Suc (count_str (drop (length sep) (c # cs)) sep)
      else count_str cs sep)"
  by pat_completeness auto
termination
  by (relation "measure (\<lambda>(s, sep). length s)") auto

text \<open>
  \<open>has_citing\<close>: somewhere in the text stands a run of one or more digits in square
  brackets or in parentheses. \<open>has_ref\<close>: somewhere stands an opening parenthesis
  followed, on the same line, by a comma after which come optional whitespace, four
  digits and, later on the line of the digits, a closing parenthesis.
\<close>

definition digit_run :: "unicode \<Rightarrow> cp \<Rightarrow> cp \<Rightarrow> str \<Rightarrow> bool" where
  "digit_run U l r s =
     (case s of [] \<Rightarrow> False
      | c # cs \<Rightarrow> c = l \<and> takeWhile (isdigit U) cs \<noteq> [] \<and> take 1 (dropWhile (isdigit U) cs) = [r])"

definition has_citing :: "unicode \<Rightarrow> str \<Rightarrow> bool" where
  "has_citing U text =
     list_ex (\<lambda>i. digit_run U (code CHR ''['') (code CHR '']'') (drop i text)
                 \<or> digit_run U (code CHR ''('') (code CHR '')'') (drop i text)) [0..<length text]"

definition year_follows :: "unicode \<Rightarrow> str \<Rightarrow> bool" where
  "year_follows U s =
     (let d = dropWhile (isspace U) s
      in 4 \<le> length d \<and> list_all (isdigit U) (take 4 d)
         \<and> (code CHR '')'') \<in> set (takeWhile dot (drop 4 d)))"

definition ref_at :: "unicode \<Rightarrow> str \<Rightarrow> bool" where
  "ref_at U s =
     (case s of [] \<Rightarrow> False
      | c # cs \<Rightarrow>
         c = code CHR ''(''
         \<and> list_ex (\<lambda>k. cs ! k = code CHR '','' \<and> year_follows U (drop (Suc k) cs))
              [0..<length (takeWhile dot cs)])"

definition has_ref :: "unicode \<Rightarrow> str \<Rightarrow> bool" where
  "has_ref U text = list_ex (\<lambda>i. ref_at U (drop i text)) [0..<length text]"

text \<open>The document of the end-to-end example.\<close>

definition example_document :: str where
  "example_document =
     lit ''==== front\<newline>Copyright 2020, licensed and credited.\<newline>Title Here.\<newline>==== body\<newline>Results [1] show growth (Doe, 2021). Acknowledgements: none.\<newline>==== refs\<newline>Doe 2021.''"

text \<open>\<open>no_adj P s\<close>: no two neighbours in \<open>s\<close> are both of class \<open>P\<close>.\<close>

fun no_adj :: "(cp \<Rightarrow> bool) \<Rightarrow> str \<Rightarrow> bool" where
  "no_adj P (a # b # s) = (\<not> (P a \<and> P b) \<and> no_adj P (b # s))"
| "no_adj P s = True"


section \<open>The front cut near the end of the text\<close>

text \<open>
  C1. The claim: \<open>cut_head\<close> does its boundary cleanup without reading a position past
  the end of the text, and returns a result also when a stopstring occurrence ends at
  the end of the text. On the text \<open>credited\<close> the cut index is 8, the length of the
  text, and the code reads \<open>text[9]\<close>; on \<open>credited.\<close> the cut index is 8, the length
  less one, and the code reads \<open>text[9]\<close> again. Both reads come before the length test
  and raise \<open>IndexError\<close>.
\<close>

theorem cut_head_reads_past_end:
  "cut_head U (lit ''credited'') stopstrings_front = Inl IndexError
   \<and> cut_head U (lit ''credited.'') stopstrings_front = Inl IndexError"
  by (simp add: cut_head_def stopstrings_front_def rfind_def lower_def lower_cp_def
      lower_latin_def lit_def code_def occurs_def py_max_def getitem_def)

section \<open>The simple patterns, unfolded\<close>

declare re_sub.simps [simp del]

lemma lit_one_append [simp]: "lit [a] @ s = code a # s"
  by (simp add: lit_def)

lemma code_eq_iff [simp]: "code a = code b \<longleftrightarrow> a = b"
  by (simp add: code_def)

lemma star_Some: "star P Some s = Some (dropWhile P s)"
  by (induction s) auto

lemma pat_symbol_Cons: "pat_symbol (c # cs) = (if allowed c then None else Some cs)"
  by (simp add: pat_symbol_def ch_def)

lemma pat_symbol_Nil: "pat_symbol [] = None"
  by (simp add: pat_symbol_def ch_def)

lemma pat_stops_Cons: "pat_stops (c # cs) = (if stop c then Some (dropWhile stop cs) else None)"
  by (simp add: pat_stops_def ch_def star_Some)

lemma pat_stops_Nil: "pat_stops [] = None"
  by (simp add: pat_stops_def ch_def)

lemma pat_spaces_Nil: "pat_spaces [] = None"
  by (simp add: pat_spaces_def ch_def)

lemma pat_spaces_Cons:
  "pat_spaces (c # cs) =
     (case cs of [] \<Rightarrow> None
      | d # ds \<Rightarrow>
         if c = code CHR '' '' \<and> d = code CHR '' ''
         then Some (dropWhile (is_char (code CHR '' '')) ds) else None)"
  by (simp add: pat_spaces_def ch_def star_Some is_char_def split: list.splits)

lemma sub_symbol:
  "re_sub pat_symbol (lit '' '') s = map (\<lambda>c. if allowed c then c else code CHR '' '') s"
  by (induction s) (simp_all add: re_sub.simps pat_symbol_Cons pat_symbol_Nil)

lemma dropWhile_less: "length (dropWhile P cs) < Suc (length cs)"
  by (simp add: le_imp_less_Suc length_dropWhile_le)

lemma sub_stops_Nil: "re_sub pat_stops (lit ''.'') [] = []"
  by (simp add: re_sub.simps pat_stops_Nil)

lemma sub_stops_Cons:
  "re_sub pat_stops (lit ''.'') (c # cs) =
     (if stop c then code CHR ''.'' # re_sub pat_stops (lit ''.'') (dropWhile stop cs)
      else c # re_sub pat_stops (lit ''.'') cs)"
  by (subst re_sub.simps) (simp add: pat_stops_Cons dropWhile_less)

lemma sub_spaces_Nil: "re_sub pat_spaces (lit '' '') [] = []"
  by (simp add: re_sub.simps pat_spaces_Nil)

lemma sub_spaces_Cons:
  "re_sub pat_spaces (lit '' '') (c # cs) =
     (case cs of [] \<Rightarrow> [c]
      | d # ds \<Rightarrow>
         if c = code CHR '' '' \<and> d = code CHR '' ''
         then code CHR '' '' # re_sub pat_spaces (lit '' '') (dropWhile (is_char (code CHR '' '')) ds)
         else c # re_sub pat_spaces (lit '' '') cs)"
proof (cases cs)
  case Nil
  then show ?thesis
    by (subst re_sub.simps) (simp add: pat_spaces_Cons sub_spaces_Nil)
next
  case (Cons d ds)
  have "length (dropWhile (is_char (code CHR '' '')) ds) < Suc (Suc (length ds))"
    using dropWhile_less [of "is_char (code CHR '' '')" ds] by simp
  with Cons show ?thesis
    by (subst re_sub.simps) (simp add: pat_spaces_Cons)
qed

section \<open>Characters that survive\<close>

lemma set_sub_stops:
  "set (re_sub pat_stops (lit ''.'') s) \<subseteq> {c \<in> set s. \<not> stop c} \<union> {code CHR ''.''}"
proof (induction s rule: length_induct)
  case (1 s)
  show ?case
  proof (cases s)
    case Nil
    then show ?thesis by (simp add: sub_stops_Nil)
  next
    case (Cons c cs)
    show ?thesis
    proof (cases "stop c")
      case True
      have "length (dropWhile stop cs) < length s"
        using Cons by (simp add: dropWhile_less)
      with 1 have "set (re_sub pat_stops (lit ''.'') (dropWhile stop cs))
          \<subseteq> {c \<in> set (dropWhile stop cs). \<not> stop c} \<union> {code CHR ''.''}"
        by blast
      moreover have "set (dropWhile stop cs) \<subseteq> set cs"
        by (auto dest: set_dropWhileD)
      ultimately show ?thesis
        using Cons True by (auto simp: sub_stops_Cons)
    next
      case False
      from 1 Cons have "set (re_sub pat_stops (lit ''.'') cs) \<subseteq> {c \<in> set cs. \<not> stop c} \<union> {code CHR ''.''}"
        by simp
      then show ?thesis
        using Cons False by (auto simp: sub_stops_Cons)
    qed
  qed
qed

lemma set_sub_spaces: "set (re_sub pat_spaces (lit '' '') s) \<subseteq> set s"
proof (induction s rule: length_induct)
  case (1 s)
  show ?case
  proof (cases s)
    case Nil
    then show ?thesis by (simp add: sub_spaces_Nil)
  next
    case (Cons c cs)
    show ?thesis
    proof (cases cs)
      case Nil
      with Cons show ?thesis by (simp add: sub_spaces_Cons)
    next
      case (Cons d ds)
      note cs = Cons
      have "length (dropWhile (is_char (code CHR '' '')) ds) < length s"
        using \<open>s = c # cs\<close> cs by (simp add: less_Suc_eq_le le_SucI length_dropWhile_le)
      with 1 have a: "set (re_sub pat_spaces (lit '' '') (dropWhile (is_char (code CHR '' '')) ds))
          \<subseteq> set (dropWhile (is_char (code CHR '' '')) ds)"
        by blast
      have b: "set (dropWhile (is_char (code CHR '' '')) ds) \<subseteq> set ds"
        by (auto dest: set_dropWhileD)
      from 1 \<open>s = c # cs\<close> have c: "set (re_sub pat_spaces (lit '' '') cs) \<subseteq> set cs"
        by simp
      show ?thesis
        using a b c \<open>s = c # cs\<close> cs by (auto simp: sub_spaces_Cons)
    qed
  qed
qed

lemma allowed_clean: "allowed c \<Longrightarrow> \<not> stop c \<Longrightarrow> clean c"
  by (auto simp: allowed_def stop_def clean_def)

lemma clean_dot: "clean (code CHR ''.'')" and clean_space: "clean (code CHR '' '')"
  by (simp_all add: clean_def)

lemma normalize_clean: "c \<in> set (normalize U text) \<Longrightarrow> clean c"
proof -
  assume "c \<in> set (normalize U text)"
  then have "c \<in> set (re_sub pat_stops (lit ''.'')
      (map (\<lambda>c. if allowed c then c else code CHR '' '') (remove_refs U (remove_citing U text))))"
    using set_sub_spaces by (auto simp: normalize_def sub_symbol)
  then have "c = code CHR ''.'' \<or> (\<not> stop c \<and> (allowed c \<or> c = code CHR '' ''))"
    using set_sub_stops [of "map (\<lambda>c. if allowed c then c else code CHR '' '')
        (remove_refs U (remove_citing U text))"]
    by (auto split: if_splits)
  then show "clean c"
    using allowed_clean clean_dot clean_space by blast
qed

lemma not_clean:
  "\<not> clean (code CHR ''!'')" "\<not> clean (code CHR ''?'')" "\<not> clean (code CHR ''('')"
  "\<not> clean (code CHR '')'')" "\<not> clean (code CHR ''['')" "\<not> clean (code CHR '']'')"
  by (simp_all add: clean_def code_def)

section \<open>Normalization leaves only clean characters\<close>

text \<open>
  C10. Every character of the output of \<open>normalize\<close> is an ASCII letter, an ASCII digit,
  a comma, a period, a hyphen, a newline or a space; in particular no exclamation mark,
  question mark, parenthesis or bracket survives.
\<close>

theorem normalize_output_clean:
  "(\<forall>c \<in> set (normalize U text). clean c)
   \<and> code CHR ''!'' \<notin> set (normalize U text) \<and> code CHR ''?'' \<notin> set (normalize U text)
   \<and> code CHR ''('' \<notin> set (normalize U text) \<and> code CHR '')'' \<notin> set (normalize U text)
   \<and> code CHR ''['' \<notin> set (normalize U text) \<and> code CHR '']'' \<notin> set (normalize U text)"
  using normalize_clean [of _ U "text"] not_clean by blast

theorem normalize_output_clean_witness:
  "\<forall>U. list_all clean (normalize U (lit ''Is it (1) so?! [x]''))
     \<and> code CHR ''!'' \<notin> set (normalize U (lit ''Is it (1) so?! [x]''))"
  using normalize_output_clean [of _ "lit ''Is it (1) so?! [x]''"]
  by (simp add: list_all_iff)

section \<open>Neighbours after the terminator and space passes\<close>

lemma is_char_iff: "is_char a c = (c = a)"
  by (simp add: is_char_def)

lemma not_stop_space: "\<not> stop (code CHR '' '')"
  by (simp add: stop_def)

lemma no_adj_Cons:
  "no_adj P (a # s) = ((s \<noteq> [] \<longrightarrow> \<not> (P a \<and> P (hd s))) \<and> no_adj P s)"
  by (cases s) auto

lemma no_adj_dropWhile: "no_adj P s \<Longrightarrow> no_adj P (dropWhile Q s)"
  by (induction s) (auto simp: no_adj_Cons)

lemma hd_sub_spaces:
  "s \<noteq> [] \<Longrightarrow> re_sub pat_spaces (lit '' '') s \<noteq> [] \<and> hd (re_sub pat_spaces (lit '' '') s) = hd s"
  by (cases s) (auto simp: sub_spaces_Cons split: list.splits)

lemma hd_sub_stops:
  "s \<noteq> [] \<Longrightarrow> \<not> stop (hd s)
   \<Longrightarrow> re_sub pat_stops (lit ''.'') s \<noteq> [] \<and> hd (re_sub pat_stops (lit ''.'') s) = hd s"
  by (cases s) (auto simp: sub_stops_Cons)

lemma sub_stops_eq_Nil: "re_sub pat_stops (lit ''.'') s = [] \<Longrightarrow> s = []"
  by (cases s) (auto simp: sub_stops_Cons split: if_splits)

lemma hd_dropWhile_not: "dropWhile P s \<noteq> [] \<Longrightarrow> \<not> P (hd (dropWhile P s))"
  using hd_dropWhile by blast

lemma no_adj_sub_stops: "no_adj stop (re_sub pat_stops (lit ''.'') s)"
proof (induction s rule: length_induct)
  case (1 s)
  show ?case
  proof (cases s)
    case Nil
    then show ?thesis by (simp add: sub_stops_Nil)
  next
    case (Cons c cs)
    show ?thesis
    proof (cases "stop c")
      case True
      let ?r = "dropWhile stop cs"
      have "length ?r < length s"
        using Cons by (simp add: dropWhile_less)
      with 1 have ih: "no_adj stop (re_sub pat_stops (lit ''.'') ?r)"
        by blast
      have "\<not> stop (hd (re_sub pat_stops (lit ''.'') ?r))" if "re_sub pat_stops (lit ''.'') ?r \<noteq> []"
      proof -
        from that have ne: "?r \<noteq> []"
          by (auto simp del: dropWhile_eq_Nil_conv simp: sub_stops_Nil)
        then have ns: "\<not> stop (hd ?r)"
          by (rule hd_dropWhile_not)
        with ne show ?thesis
          by (simp add: hd_sub_stops)
      qed
      with ih show ?thesis
        using Cons True by (auto simp: sub_stops_Cons no_adj_Cons)
    next
      case False
      from 1 Cons have "no_adj stop (re_sub pat_stops (lit ''.'') cs)"
        by simp
      then show ?thesis
        using Cons False by (simp add: sub_stops_Cons no_adj_Cons)
    qed
  qed
qed

lemma no_adj_sub_spaces: "no_adj (is_char (code CHR '' '')) (re_sub pat_spaces (lit '' '') s)"
proof (induction s rule: length_induct)
  case (1 s)
  show ?case
  proof (cases s)
    case Nil
    then show ?thesis by (simp add: sub_spaces_Nil)
  next
    case (Cons c cs)
    note s = Cons
    show ?thesis
    proof (cases cs)
      case Nil
      with s show ?thesis by (simp add: sub_spaces_Cons)
    next
      case (Cons d ds)
      let ?r = "dropWhile (is_char (code CHR '' '')) ds"
      have "length ?r < length s"
        using s Cons by (simp add: less_Suc_eq_le le_SucI length_dropWhile_le)
      with 1 have ih1: "no_adj (is_char (code CHR '' '')) (re_sub pat_spaces (lit '' '') ?r)"
        by blast
      from 1 s have ih2: "no_adj (is_char (code CHR '' '')) (re_sub pat_spaces (lit '' '') cs)"
        by simp
      have hd1: "\<not> is_char (code CHR '' '') (hd (re_sub pat_spaces (lit '' '') ?r))"
        if "re_sub pat_spaces (lit '' '') ?r \<noteq> []"
      proof -
        from that have ne: "?r \<noteq> []"
          by (auto simp del: dropWhile_eq_Nil_conv simp: sub_spaces_Nil)
        then have "\<not> is_char (code CHR '' '') (hd ?r)"
          by (rule hd_dropWhile_not)
        with ne show ?thesis
          by (simp add: hd_sub_spaces)
      qed
      have hd2: "hd (re_sub pat_spaces (lit '' '') cs) = d" "re_sub pat_spaces (lit '' '') cs \<noteq> []"
        using hd_sub_spaces [of cs] Cons by simp_all
      show ?thesis
      proof (cases "c = code CHR '' '' \<and> d = code CHR '' ''")
        case True
        then have "re_sub pat_spaces (lit '' '') s = code CHR '' '' # re_sub pat_spaces (lit '' '') ?r"
          using s Cons by (simp add: sub_spaces_Cons)
        with ih1 hd1 show ?thesis
          by (auto simp: no_adj_Cons)
      next
        case False
        then have "re_sub pat_spaces (lit '' '') s = c # re_sub pat_spaces (lit '' '') cs"
          using s Cons by (auto simp: sub_spaces_Cons)
        moreover have "\<not> (is_char (code CHR '' '') c \<and> is_char (code CHR '' '') d)"
          using False by (simp add: is_char_iff)
        ultimately show ?thesis
          using ih2 hd2 by (simp add: no_adj_Cons)
      qed
    qed
  qed
qed

lemma sub_spaces_keeps: "no_adj stop s \<Longrightarrow> no_adj stop (re_sub pat_spaces (lit '' '') s)"
proof (induction s rule: length_induct)
  case (1 s)
  note ih = 1(1) and na = 1(2)
  show ?case
  proof (cases s)
    case Nil
    then show ?thesis by (simp add: sub_spaces_Nil)
  next
    case (Cons c cs)
    note s = Cons
    show ?thesis
    proof (cases cs)
      case Nil
      with s show ?thesis by (simp add: sub_spaces_Cons)
    next
      case (Cons d ds)
      let ?r = "dropWhile (is_char (code CHR '' '')) ds"
      have "length ?r < length s"
        using s Cons by (simp add: less_Suc_eq_le le_SucI length_dropWhile_le)
      moreover have "no_adj stop ds"
        using na s Cons by (simp add: no_adj_Cons)
      then have "no_adj stop ?r"
        by (rule no_adj_dropWhile)
      ultimately have ih1: "no_adj stop (re_sub pat_spaces (lit '' '') ?r)"
        using ih by blast
      have "no_adj stop cs"
        using na s by (simp add: no_adj_Cons)
      with ih s have ih2: "no_adj stop (re_sub pat_spaces (lit '' '') cs)"
        by simp
      have hd2: "hd (re_sub pat_spaces (lit '' '') cs) = d" "re_sub pat_spaces (lit '' '') cs \<noteq> []"
        using hd_sub_spaces [of cs] Cons by simp_all
      have cd: "\<not> (stop c \<and> stop d)"
        using na s Cons by simp
      show ?thesis
      proof (cases "c = code CHR '' '' \<and> d = code CHR '' ''")
        case True
        then have "re_sub pat_spaces (lit '' '') s = code CHR '' '' # re_sub pat_spaces (lit '' '') ?r"
          using s Cons by (simp add: sub_spaces_Cons)
        with ih1 show ?thesis
          by (simp add: no_adj_Cons not_stop_space)
      next
        case False
        then have "re_sub pat_spaces (lit '' '') s = c # re_sub pat_spaces (lit '' '') cs"
          using s Cons by (auto simp: sub_spaces_Cons)
        with ih2 hd2 cd show ?thesis
          by (auto simp: no_adj_Cons)
      qed
    qed
  qed
qed

section \<open>Passes that change nothing\<close>

lemma re_sub_id:
  "m [] = None \<Longrightarrow> (\<And>c cs. c \<in> set s \<Longrightarrow> m (c # cs) = None) \<Longrightarrow> re_sub m repl s = s"
  by (induction s) (simp_all add: re_sub.simps)

lemma sub_stops_id:
  "no_adj stop s \<Longrightarrow> (\<And>c. c \<in> set s \<Longrightarrow> stop c \<Longrightarrow> c = code CHR ''.'')
   \<Longrightarrow> re_sub pat_stops (lit ''.'') s = s"
proof (induction s)
  case Nil
  then show ?case by (simp add: sub_stops_Nil)
next
  case (Cons c cs)
  have ih: "re_sub pat_stops (lit ''.'') cs = cs"
    using Cons by (simp add: no_adj_Cons)
  show ?case
  proof (cases "stop c")
    case True
    then have "c = code CHR ''.''"
      using Cons.prems(2) by simp
    moreover have "dropWhile stop cs = cs"
      using Cons.prems(1) True by (cases cs) simp_all
    ultimately show ?thesis
      using True ih by (simp add: sub_stops_Cons)
  next
    case False
    with ih show ?thesis by (simp add: sub_stops_Cons)
  qed
qed

lemma sub_spaces_id: "no_adj (is_char (code CHR '' '')) s \<Longrightarrow> re_sub pat_spaces (lit '' '') s = s"
proof (induction s)
  case Nil
  then show ?case by (simp add: sub_spaces_Nil)
next
  case (Cons c cs)
  then have ih: "re_sub pat_spaces (lit '' '') cs = cs"
    by (simp add: no_adj_Cons)
  show ?case
  proof (cases cs)
    case Nil
    then show ?thesis by (simp add: sub_spaces_Cons)
  next
    case (Cons d ds)
    with Cons.prems have "\<not> (c = code CHR '' '' \<and> d = code CHR '' '')"
      by (simp add: is_char_iff)
    with ih Cons show ?thesis
      by (auto simp: sub_spaces_Cons)
  qed
qed

lemma pat_citing_Nil: "pat_citing U [] = None"
  by (simp add: pat_citing_def alt_def ch_def)

lemma pat_citing_first: "c \<noteq> code CHR ''['' \<Longrightarrow> c \<noteq> code CHR ''('' \<Longrightarrow> pat_citing U (c # cs) = None"
  by (simp add: pat_citing_def alt_def ch_def is_char_iff)

lemma pat_refs_Nil: "pat_refs U [] = None"
  by (simp add: pat_refs_def ch_def)

lemma pat_refs_first: "c \<noteq> code CHR ''('' \<Longrightarrow> pat_refs U (c # cs) = None"
  by (simp add: pat_refs_def ch_def is_char_iff)

lemma clean_allowed: "clean c \<Longrightarrow> allowed c \<or> c = code CHR '' ''"
  by (auto simp: clean_def allowed_def)

lemma clean_stop: "clean c \<Longrightarrow> stop c \<Longrightarrow> c = code CHR ''.''"
  using not_clean by (auto simp: stop_def)

lemma normalize_fixed:
  assumes cl: "\<And>c. c \<in> set s \<Longrightarrow> clean c"
    and st: "no_adj stop s" and sp: "no_adj (is_char (code CHR '' '')) s"
  shows "normalize U s = s"
proof -
  have nb: "c \<noteq> code CHR ''['' \<and> c \<noteq> code CHR ''(''" if "c \<in> set s" for c
    using cl [OF that] not_clean by auto
  have 1: "remove_citing U s = s"
    unfolding remove_citing_def
    by (rule re_sub_id) (simp_all add: pat_citing_Nil pat_citing_first nb)
  have 2: "remove_refs U s = s"
    unfolding remove_refs_def
    by (rule re_sub_id) (simp_all add: pat_refs_Nil pat_refs_first nb)
  have 3: "re_sub pat_symbol (lit '' '') s = s"
    unfolding sub_symbol
  proof (rule map_idI)
    fix c
    assume "c \<in> set s"
    then show "(if allowed c then c else (code CHR '' '')) = c"
      using cl clean_allowed by auto
  qed
  have 4: "re_sub pat_stops (lit ''.'') s = s"
    using st cl clean_stop by (intro sub_stops_id) auto
  have 5: "re_sub pat_spaces (lit '' '') s = s"
    using sp by (rule sub_spaces_id)
  show ?thesis
    by (simp add: normalize_def 1 2 3 4 5)
qed

lemma normalize_no_adj:
  "no_adj stop (normalize U text)" "no_adj (is_char (code CHR '' '')) (normalize U text)"
  by (simp_all add: normalize_def no_adj_sub_spaces sub_spaces_keeps no_adj_sub_stops)

text \<open>
  C6. Normalization is idempotent: normalizing a normalized text changes nothing.
\<close>

theorem normalize_idempotent: "normalize U (normalize U text) = normalize U text"
  by (rule normalize_fixed) (simp_all add: normalize_clean normalize_no_adj)

section \<open>What a match of the citation and reference patterns looks like\<close>

lemma ch_SomeD: "ch P k s = Some r \<Longrightarrow> \<exists>c cs. s = c # cs \<and> P c \<and> k cs = Some r"
  by (auto simp: ch_def split: list.splits if_splits)

lemma star_SomeD: "star P k s = Some r \<Longrightarrow> \<exists>a b. s = a @ b \<and> list_all P a \<and> k b = Some r"
proof (induction s)
  case Nil
  then show ?case by simp
next
  case (Cons c cs)
  show ?case
  proof (cases "P c \<and> star P k cs \<noteq> None")
    case True
    with Cons.prems have "star P k cs = Some r"
      by auto
    then obtain a b where "cs = a @ b" "list_all P a" "k b = Some r"
      using Cons.IH by blast
    with True have "c # cs = (c # a) @ b \<and> list_all P (c # a) \<and> k b = Some r"
      by simp
    then show ?thesis by blast
  next
    case False
    with Cons.prems have "k (c # cs) = Some r"
      by (auto split: if_splits)
    then have "c # cs = [] @ (c # cs) \<and> list_all P [] \<and> k (c # cs) = Some r"
      by simp
    then show ?thesis by blast
  qed
qed

lemma bracketed_SomeD:
  assumes "ch (is_char l) (ch (isdigit U) (star (isdigit U) (ch (is_char r0) Some))) s = Some r"
    and "\<not> isdigit U r0"
  shows "digit_run U l r0 s"
proof -
  from ch_SomeD [OF assms(1)] obtain s1 where s: "s = l # s1"
      and 1: "ch (isdigit U) (star (isdigit U) (ch (is_char r0) Some)) s1 = Some r"
    by (auto simp: is_char_iff)
  from ch_SomeD [OF 1] obtain d s2 where s1: "s1 = d # s2" and d: "isdigit U d"
      and 2: "star (isdigit U) (ch (is_char r0) Some) s2 = Some r"
    by auto
  from star_SomeD [OF 2] obtain a b where s2: "s2 = a @ b" and a: "list_all (isdigit U) a"
      and 3: "ch (is_char r0) Some b = Some r"
    by auto
  from ch_SomeD [OF 3] have b: "b = r0 # r"
    by (auto simp: is_char_iff)
  have "takeWhile (isdigit U) (d # a @ r0 # r) = d # a"
    using d a assms(2) by (simp add: list_all_iff)
  moreover have "dropWhile (isdigit U) (d # a @ r0 # r) = r0 # r"
    using d a assms(2) by (simp add: list_all_iff)
  ultimately show ?thesis
    unfolding s s1 s2 b digit_run_def by simp
qed

lemma not_digit_close: "\<not> isdigit U (code CHR '']'')" "\<not> isdigit U (code CHR '')'')"
  by (simp_all add: isdigit_def code_def)

lemma pat_citing_SomeD:
  "pat_citing U s = Some r
   \<Longrightarrow> digit_run U (code CHR ''['') (code CHR '']'') s
       \<or> digit_run U (code CHR ''('') (code CHR '')'') s"
  unfolding pat_citing_def alt_def
  by (auto split: option.splits dest: bracketed_SomeD simp: not_digit_close)

lemma digit_not_space: "isdigit U c \<Longrightarrow> \<not> isspace U c"
  by (auto simp: isdigit_def isspace_def)

lemma dot_comma: "dot (code CHR '','')" and dot_close: "dot (code CHR '')'')"
  by (simp_all add: dot_def)

lemma pat_refs_SomeD:
  assumes "pat_refs U s = Some r"
  shows "ref_at U s"
proof -
  let ?tail = "ch (isdigit U) (ch (isdigit U) (ch (isdigit U) (ch (isdigit U)
      (star dot (ch (is_char (code CHR '')'')) Some)))))"
  from ch_SomeD [OF assms [unfolded pat_refs_def]] obtain s1 where s: "s = code CHR ''('' # s1"
      and 1: "star dot (ch (is_char (code CHR '','')) (star (isspace U) ?tail)) s1 = Some r"
    by (auto simp: is_char_iff)
  from star_SomeD [OF 1] obtain a s2 where s1: "s1 = a @ s2" and a: "list_all dot a"
      and 2: "ch (is_char (code CHR '','')) (star (isspace U) ?tail) s2 = Some r"
    by auto
  from ch_SomeD [OF 2] obtain s3 where s2: "s2 = code CHR '','' # s3"
      and 3: "star (isspace U) ?tail s3 = Some r"
    by (auto simp: is_char_iff)
  from star_SomeD [OF 3] obtain ws s4 where s3: "s3 = ws @ s4" and ws: "list_all (isspace U) ws"
      and 4: "?tail s4 = Some r"
    by auto
  from ch_SomeD [OF 4] obtain d1 t1 where t1: "s4 = d1 # t1" "isdigit U d1"
      and 41: "ch (isdigit U) (ch (isdigit U) (ch (isdigit U)
        (star dot (ch (is_char (code CHR '')'')) Some)))) t1 = Some r"
    by auto
  from ch_SomeD [OF 41] obtain d2 t2 where t2: "t1 = d2 # t2" "isdigit U d2"
      and 42: "ch (isdigit U) (ch (isdigit U) (star dot (ch (is_char (code CHR '')'')) Some))) t2 = Some r"
    by auto
  from ch_SomeD [OF 42] obtain d3 t3 where t3: "t2 = d3 # t3" "isdigit U d3"
      and 43: "ch (isdigit U) (star dot (ch (is_char (code CHR '')'')) Some)) t3 = Some r"
    by auto
  from ch_SomeD [OF 43] obtain d4 s5 where t4: "t3 = d4 # s5" "isdigit U d4"
      and 5: "star dot (ch (is_char (code CHR '')'')) Some) s5 = Some r"
    by auto
  have s4: "s4 = d1 # d2 # d3 # d4 # s5"
    and ds: "isdigit U d1" "isdigit U d2" "isdigit U d3" "isdigit U d4"
    using t1 t2 t3 t4 by simp_all
  from star_SomeD [OF 5] obtain b s6 where s56: "s5 = b @ s6" and b: "list_all dot b"
      and 6: "ch (is_char (code CHR '')'')) Some s6 = Some r"
    by auto
  from ch_SomeD [OF 6] have "s6 = code CHR '')'' # r"
    by (auto simp: is_char_iff)
  with s56 have s5: "s5 = b @ code CHR '')'' # r"
    by simp
  have "dropWhile (isspace U) s3 = s4"
    unfolding s3 s4 using ws ds(1) digit_not_space by (simp add: list_all_iff)
  moreover have "takeWhile dot s5 = b @ code CHR '')'' # takeWhile dot r"
    unfolding s5 using b dot_close by (simp add: list_all_iff)
  ultimately have yf: "year_follows U s3"
    unfolding year_follows_def using ds by (simp add: s4)
  have "takeWhile dot s1 = a @ code CHR '','' # takeWhile dot s3"
    unfolding s1 s2 using a dot_comma by (simp add: list_all_iff)
  then have "length a < length (takeWhile dot s1)"
    by simp
  moreover have "s1 ! length a = code CHR '',''" "drop (Suc (length a)) s1 = s3"
    unfolding s1 s2 by simp_all
  ultimately have "\<exists>k \<in> set [0..<length (takeWhile dot s1)].
      s1 ! k = code CHR '','' \<and> year_follows U (drop (Suc k) s1)"
    using yf by (intro bexI [of _ "length a"]) simp_all
  then show ?thesis
    unfolding s ref_at_def list_ex_iff by simp
qed

lemma re_sub_id_suffix:
  "m [] = None \<Longrightarrow> (\<And>i. i < length s \<Longrightarrow> m (drop i s) = None) \<Longrightarrow> re_sub m repl s = s"
proof (induction s)
  case Nil
  then show ?case by (simp add: re_sub.simps)
next
  case (Cons c cs)
  have "m (c # cs) = None"
    using Cons.prems(2) [of 0] by simp
  moreover have "re_sub m repl cs = cs"
  proof (rule Cons.IH [OF Cons.prems(1)])
    fix i
    assume "i < length cs"
    then show "m (drop i cs) = None"
      using Cons.prems(2) [of "Suc i"] by simp
  qed
  ultimately show ?case
    by (simp add: re_sub.simps)
qed

lemma remove_citing_id: "\<not> has_citing U text \<Longrightarrow> remove_citing U text = text"
  unfolding remove_citing_def
proof (rule re_sub_id_suffix)
  show "pat_citing U [] = None"
    by (rule pat_citing_Nil)
next
  fix i
  assume "\<not> has_citing U text" "i < length text"
  then have "\<not> (digit_run U (code CHR ''['') (code CHR '']'') (drop i text)
      \<or> digit_run U (code CHR ''('') (code CHR '')'') (drop i text))"
    by (auto simp: has_citing_def list_ex_iff)
  then show "pat_citing U (drop i text) = None"
    using pat_citing_SomeD by (cases "pat_citing U (drop i text)") blast+
qed

lemma remove_refs_id: "\<not> has_ref U text \<Longrightarrow> remove_refs U text = text"
  unfolding remove_refs_def
proof (rule re_sub_id_suffix)
  show "pat_refs U [] = None"
    by (rule pat_refs_Nil)
next
  fix i
  assume "\<not> has_ref U text" "i < length text"
  then have "\<not> ref_at U (drop i text)"
    by (auto simp: has_ref_def list_ex_iff)
  then show "pat_refs U (drop i text) = None"
    using pat_refs_SomeD by (cases "pat_refs U (drop i text)") blast+
qed

text \<open>
  C9. The claim: on a text with no bracketed and no parenthesized run of digits, both
  \<open>remove_citing\<close> and \<open>remove_refs\<close> return the text unchanged. The text
  \<open>(Smith, 2019)\<close> has no such run, and \<open>remove_refs\<close> replaces it by a space.
\<close>

theorem remove_refs_changes_reference:
  "\<forall>U. \<not> has_citing U (lit ''(Smith, 2019)'')
     \<and> remove_refs U (lit ''(Smith, 2019)'') = lit '' ''
     \<and> remove_refs U (lit ''(Smith, 2019)'') \<noteq> lit ''(Smith, 2019)''"
  (is "\<forall>U. ?P U")
proof
  fix U
  show "?P U"
    by code_simp
qed

text \<open>
  C9, amended: \<open>remove_citing\<close> returns unchanged every text with no bracketed and no
  parenthesized run of digits; \<open>remove_refs\<close> returns unchanged every text with no
  parenthetical reference, that is no opening parenthesis followed on its line by a
  comma, optional whitespace, four digits and a later closing parenthesis.
\<close>

theorem strip_identity_without_patterns:
  "(\<not> has_citing U text \<longrightarrow> remove_citing U text = text)
   \<and> (\<not> has_ref U text \<longrightarrow> remove_refs U text = text)"
  using remove_citing_id remove_refs_id by blast

theorem strip_identity_without_patterns_witness:
  "\<forall>U. \<not> has_citing U (lit ''Growth (Fig. 2a), see [12a] and (3, 4).'')
     \<and> \<not> has_ref U (lit ''Growth (Fig. 2a), see [12a] and (3, 4).'')
     \<and> remove_citing U (lit ''Growth (Fig. 2a), see [12a] and (3, 4).'')
         = lit ''Growth (Fig. 2a), see [12a] and (3, 4).''
     \<and> remove_refs U (lit ''Growth (Fig. 2a), see [12a] and (3, 4).'')
         = lit ''Growth (Fig. 2a), see [12a] and (3, 4).''"
proof
  fix U
  have 1: "\<not> has_citing U (lit ''Growth (Fig. 2a), see [12a] and (3, 4).'')"
    by code_simp
  have 2: "\<not> has_ref U (lit ''Growth (Fig. 2a), see [12a] and (3, 4).'')"
    by code_simp
  show "\<not> has_citing U (lit ''Growth (Fig. 2a), see [12a] and (3, 4).'')
     \<and> \<not> has_ref U (lit ''Growth (Fig. 2a), see [12a] and (3, 4).'')
     \<and> remove_citing U (lit ''Growth (Fig. 2a), see [12a] and (3, 4).'')
         = lit ''Growth (Fig. 2a), see [12a] and (3, 4).''
     \<and> remove_refs U (lit ''Growth (Fig. 2a), see [12a] and (3, 4).'')
         = lit ''Growth (Fig. 2a), see [12a] and (3, 4).''"
    using 1 2
      strip_identity_without_patterns [of U "lit ''Growth (Fig. 2a), see [12a] and (3, 4).''"]
    by blast
qed

section \<open>The back cut\<close>

lemma py_min_Min: "xs \<noteq> [] \<Longrightarrow> py_min xs = Inr (Min (set xs))"
  by (cases xs) (simp_all add: py_min_def Min.set_eq_fold [symmetric])

lemma slice_to_nat: "slice_to s (int n) = take n s"
  by (simp add: slice_to_def)

lemma filter_find:
  "(case filter P xs of [] \<Rightarrow> - 1 | i # _ \<Rightarrow> int i)
     = (case List.find P xs of None \<Rightarrow> - 1 | Some i \<Rightarrow> int i)"
  by (induction xs) simp_all

lemma find_str_range: "find_str s sub = - 1 \<or> 0 \<le> find_str s sub"
  unfolding find_str_def filter_find by (simp split: option.splits)

text \<open>
  The value the code computes for one stopstring is never negative, and it is the length
  of the text for a stopstring that does not occur in the lowercased text.
\<close>

lemma back_value_nonneg: "0 \<le> back_value U text string"
  using find_str_range [of "lower U text" string] by (auto simp: back_value_def)

lemma back_value_absent:
  "find_str (lower U text) string = - 1 \<Longrightarrow> back_value U text string = int (length text)"
  by (simp add: back_value_def)

lemma cut_tail_Min:
  assumes "stopstrings \<noteq> []"
  shows "cut_tail U text stopstrings
         = Inr (take (nat (Min (back_value U text ` set stopstrings))) text)"
proof -
  have "0 \<le> Min (back_value U text ` set stopstrings)"
    using assms by (simp add: back_value_nonneg)
  then have "slice_to text (Min (back_value U text ` set stopstrings))
      = take (nat (Min (back_value U text ` set stopstrings))) text"
    by (simp add: slice_to_def)
  then show ?thesis
    using assms by (simp add: cut_tail_def py_min_Min back_value_def [abs_def])
qed

text \<open>The result of \<open>cut_tail\<close> is always a prefix of the text.\<close>

lemma cut_tail_prefix:
  assumes "stopstrings \<noteq> []"
  shows "\<exists>k. k \<le> length text \<and> cut_tail U text stopstrings = Inr (take k text)"
proof -
  let ?n = "nat (Min (back_value U text ` set stopstrings))"
  have "cut_tail U text stopstrings = Inr (take (min ?n (length text)) text)"
    using cut_tail_Min [OF assms] by (simp add: min_def)
  then show ?thesis
    by (intro exI [of _ "min ?n (length text)"]) simp
qed

text \<open>When no stopstring occurs in the lowercased text, the whole text is returned.\<close>

lemma cut_tail_absent:
  assumes "stopstrings \<noteq> []"
    and "\<And>m. m \<in> set stopstrings \<Longrightarrow> find_str (lower U text) m = - 1"
  shows "cut_tail U text stopstrings = Inr text"
proof -
  have "back_value U text ` set stopstrings = {int (length text)}"
    using assms by (cases stopstrings) (auto simp: back_value_absent)
  then show ?thesis
    using cut_tail_Min [OF assms(1), of U "text"] by simp
qed

lemma stopstrings_body_ne: "stopstrings_body \<noteq> []"
  by (simp add: stopstrings_body_def)

section \<open>The back cut of a text of code points below 256\<close>

text \<open>
  Lowercasing a text of code points below 256 maps it code point by code point, so an
  index of the lowercased text is an index of the text.
\<close>

lemma lower_from_latin:
  "\<forall>c \<in> set s. c < 256 \<Longrightarrow> lower_from U before s = map lower_latin s"
  by (induction s arbitrary: before) (simp_all add: lower_cp_def)

lemma lower_latin_text:
  "\<forall>c \<in> set s. c < 256 \<Longrightarrow> lower U s = map lower_latin s"
  unfolding lower_def by (rule lower_from_latin)

lemma length_lower:
  "\<forall>c \<in> set s. c < 256 \<Longrightarrow> length (lower U s) = length s"
  by (simp add: lower_latin_text)

lemma occurs_lower:
  assumes "\<forall>c \<in> set text. c < 256"
  shows "occurs (lower U text) marker i = (lower U (take (length marker) (drop i text)) = marker)"
proof -
  have "\<forall>c \<in> set (take (length marker) (drop i text)). c < 256"
    using assms by (meson in_set_dropD in_set_takeD)
  then have "lower U (take (length marker) (drop i text))
      = map lower_latin (take (length marker) (drop i text))"
    by (rule lower_latin_text)
  then show ?thesis
    by (simp add: occurs_def lower_latin_text [OF assms] take_map drop_map)
qed

lemma find_str_first:
  assumes "\<forall>c \<in> set text. c < 256"
  shows "find_str (lower U text) marker
     = (case first_occurrence U text marker of None \<Rightarrow> - 1 | Some i \<Rightarrow> int i)"
  unfolding find_str_def first_occurrence_def length_lower [OF assms] filter_find
  by (simp add: occurs_lower [OF assms, abs_def])

lemma find_upt_Some:
  assumes "List.find P [0..<n] = Some i"
  shows "i < n" and "P i" and "j < i \<Longrightarrow> \<not> P j"
proof -
  from assms obtain k where k: "k < n" "P ([0..<n] ! k)" "i = [0..<n] ! k"
      "\<forall>j<k. \<not> P ([0..<n] ! j)"
    unfolding find_Some_iff by auto
  from k(1) have ik: "[0..<n] ! k = k"
    by simp
  with k show "i < n" and "P i"
    by simp_all
  show "\<not> P j" if "j < i"
  proof -
    from that k(1,3) ik have "j < k" "[0..<n] ! j = j"
      by simp_all
    with k(4) show ?thesis
      by metis
  qed
qed

lemma first_occurrence_le: "first_occurrence U text marker = Some i \<Longrightarrow> i \<le> length text"
  unfolding first_occurrence_def using find_upt_Some(1) by fastforce

lemma back_value_first:
  assumes "\<forall>c \<in> set text. c < 256"
  shows "back_value U text marker
   = (case first_occurrence U text marker of None \<Rightarrow> int (length text) | Some i \<Rightarrow> int i)"
  by (simp add: back_value_def find_str_first [OF assms] split: option.splits)

lemma set_map_filter: "set (List.map_filter f xs) = {y. \<exists>x \<in> set xs. f x = Some y}"
  by (induction xs) (auto simp: List.map_filter_simps split: option.splits)

lemma Min_back_values:
  assumes "stopstrings \<noteq> []"
  shows "Min ((\<lambda>m. case first_occurrence U text m of None \<Rightarrow> int (length text) | Some i \<Rightarrow> int i)
            ` set stopstrings)
         = int (locateBackCut U text stopstrings)"
    (is "Min (?v ` _) = _")
proof (cases "List.map_filter (first_occurrence U text) stopstrings")
  case Nil
  have "first_occurrence U text m = None" if "m \<in> set stopstrings" for m
  proof (cases "first_occurrence U text m")
    case None
    then show ?thesis .
  next
    case (Some j)
    with that have "j \<in> set (List.map_filter (first_occurrence U text) stopstrings)"
      unfolding set_map_filter by blast
    with Nil show ?thesis
      by simp
  qed
  then have all: "?v m = int (length text)" if "m \<in> set stopstrings" for m
    using that by simp
  obtain m0 where m0: "m0 \<in> set stopstrings"
    using assms by (cases stopstrings) auto
  have "Min (?v ` set stopstrings) = int (length text)"
  proof (rule Min_eqI)
    show "finite (?v ` set stopstrings)"
      by simp
    show "int (length text) \<in> ?v ` set stopstrings"
      using all [OF m0] m0 by (metis image_eqI)
    show "int (length text) \<le> y" if "y \<in> ?v ` set stopstrings" for y
      using that all by auto
  qed
  with Nil show ?thesis
    by (simp add: locateBackCut_def)
next
  case (Cons i js)
  let ?L = "List.map_filter (first_occurrence U text) stopstrings"
  have L: "locateBackCut U text stopstrings = Min (set ?L)" and ne: "set ?L \<noteq> {}"
    using Cons by (simp_all add: locateBackCut_def)
  have "Min (set ?L) \<in> set ?L"
    using ne by (intro Min_in) simp_all
  then obtain m where m: "m \<in> set stopstrings" "first_occurrence U text m = Some (Min (set ?L))"
    unfolding set_map_filter by blast
  show ?thesis
  proof (rule Min_eqI)
    show "finite (?v ` set stopstrings)"
      by simp
    show "int (locateBackCut U text stopstrings) \<in> ?v ` set stopstrings"
      using m L by (force simp: image_iff)
    fix y
    assume "y \<in> ?v ` set stopstrings"
    then obtain m' where m': "m' \<in> set stopstrings" "y = ?v m'"
      by blast
    show "int (locateBackCut U text stopstrings) \<le> y"
    proof (cases "first_occurrence U text m'")
      case None
      have "Min (set ?L) \<le> length text"
        using m(2) by (rule first_occurrence_le)
      with None m' L show ?thesis
        by simp
    next
      case (Some j)
      with m'(1) have "j \<in> set ?L"
        unfolding set_map_filter by blast
      then have "Min (set ?L) \<le> j"
        by simp
      with Some m' L show ?thesis
        by simp
    qed
  qed
qed

text \<open>
  On such a text \<open>cut_tail\<close> returns the prefix that ends at the first case-insensitive
  occurrence of a stopstring.
\<close>

lemma cut_tail_latin:
  assumes "stopstrings \<noteq> []" and "\<forall>c \<in> set text. c < 256"
  shows "cut_tail U text stopstrings = Inr (take (locateBackCut U text stopstrings) text)"
proof -
  have "back_value U text ` set stopstrings
      = (\<lambda>m. case first_occurrence U text m of None \<Rightarrow> int (length text) | Some i \<Rightarrow> int i)
          ` set stopstrings"
    using back_value_first [OF assms(2)] by (intro image_cong) simp_all
  then show ?thesis
    using cut_tail_Min [OF assms(1), of U "text"] Min_back_values [OF assms(1), of "text" U]
    by simp
qed

text \<open>
  C7. The claim: \<open>cut_tail\<close> returns the prefix of the text that ends just before the
  first case-insensitive occurrence of a marker. The code finds the index in
  \<open>text.lower()\<close> and cuts the text itself there. The text of U+0130, U+0130, a space
  and \<open>Acknowledgements: none\<close> is two code points longer when lowercased; the marker
  starts at index 3 of the text and at index 5 of the lowercased text, and \<open>cut_tail\<close>
  returns the first five code points, which end with \<open>Ac\<close>, not the first three.
\<close>

theorem cut_tail_index_of_lowered_text:
  "first_occurrence U ([304, 304, 32] @ lit ''Acknowledgements: none'')
       (lit ''acknowledgements'') = Some 3
   \<and> locateBackCut U ([304, 304, 32] @ lit ''Acknowledgements: none'') stopstrings_body = 3
   \<and> find_str (lower U ([304, 304, 32] @ lit ''Acknowledgements: none''))
       (lit ''acknowledgements'') = 5
   \<and> cut_tail U ([304, 304, 32] @ lit ''Acknowledgements: none'') stopstrings_body
       = Inr ([304, 304, 32] @ lit ''Ac'')"
  by code_simp

section \<open>Sections of a document\<close>

lemma length_split_from:
  "sep \<noteq> [] \<Longrightarrow> length (split_from sep acc s) = Suc (count_str s sep)"
  by (induction sep acc s rule: split_from.induct) simp_all

lemma separator_ne: "separator \<noteq> []"
  by (simp add: separator_def lit_def)

lemma split_str_separator: "split_str text separator = Inr (split_from separator [] text)"
  by (simp add: split_str_def separator_ne)

lemma slice_1_3_short:
  assumes "length parts < 3"
  shows "(case take 2 (drop 1 parts) of [front, body] \<Rightarrow> (front, body) | _ \<Rightarrow> d) = d"
proof -
  from assms consider "parts = []" | a where "parts = [a]" | a b where "parts = [a, b]"
    by (cases parts; cases "tl parts"; cases "tl (tl parts)") auto
  then show ?thesis
    by cases simp_all
qed

lemma slice_1_3_long:
  assumes "3 \<le> length parts"
  shows "(case take 2 (drop 1 parts) of [front, body] \<Rightarrow> (front, body) | _ \<Rightarrow> d)
         = (parts ! 1, parts ! 2)"
proof -
  from assms obtain a b c rest where "parts = a # b # c # rest"
    by (cases parts; cases "tl parts"; cases "tl (tl parts)") auto
  then show ?thesis
    by simp
qed

lemma sections_short:
  assumes "length (split_from separator [] text) < 3"
  shows "sections text = ([], text)"
  unfolding sections_def split_str_separator sum.case
  by (rule slice_1_3_short [OF assms])

lemma sections_long:
  assumes "3 \<le> length (split_from separator [] text)"
  shows "sections text = (split_from separator [] text ! 1, split_from separator [] text ! 2)"
  unfolding sections_def split_str_separator sum.case
  by (rule slice_1_3_long [OF assms])

text \<open>
  C5. The claim: the front/body/refs structure is recognized only when the separator
  appears at least three times, and every document with fewer occurrences takes the
  fallback. The document \<open>====a====b\<close> holds the separator twice, and its front and body
  are sections 1 and 2 of the split.
\<close>

theorem two_separators_recognized:
  "count_str (lit ''====a====b'') separator = 2
   \<and> sections (lit ''====a====b'') = (lit ''a'', lit ''b'')
   \<and> sections (lit ''====a====b'') \<noteq> ([], lit ''====a====b'')"
  by (simp add: sections_def split_str_def separator_def lit_def)

text \<open>
  C5, amended: the structure is recognized, front and body being sections 1 and 2 of the
  split, exactly when the separator occurs at least twice (the split then yields at
  least three sections); every document with fewer than two occurrences takes the
  fallback, an empty front and the whole text as body.
\<close>

theorem sections_by_separator_count:
  "length (split_from separator [] text) = Suc (count_str text separator)
   \<and> sections text =
       (if 2 \<le> count_str text separator
        then (split_from separator [] text ! 1, split_from separator [] text ! 2)
        else ([], text))"
  using sections_short [of "text"] sections_long [of "text"]
  by (simp add: length_split_from [OF separator_ne])

theorem sections_by_separator_count_witness:
  "sections (lit ''x====a====b====c'') = (lit ''a'', lit ''b'')
   \<and> sections (lit ''a====b'') = ([], lit ''a====b'')"
proof -
  have 1: "count_str (lit ''x====a====b====c'') separator = 3"
    by (simp add: separator_def lit_def)
  have 2: "count_str (lit ''a====b'') separator = 1"
    by (simp add: separator_def lit_def)
  have 3: "split_from separator [] (lit ''x====a====b====c'')
           = [lit ''x'', lit ''a'', lit ''b'', lit ''c'']"
    by (simp add: separator_def lit_def)
  show ?thesis
    using sections_by_separator_count [of "lit ''x====a====b====c''"]
      sections_by_separator_count [of "lit ''a====b''"]
    unfolding 1 2 3 by simp
qed

section \<open>The fallback\<close>

lemma cut_head_empty: "cut_head U [] stopstrings_front = Inr []"
  by (simp add: cut_head_def stopstrings_front_def rfind_def lower_def occurs_def py_max_def
      lit_def)

lemma normalize_empty: "normalize U [] = []"
  by (simp add: normalize_def remove_citing_def remove_refs_def re_sub.simps pat_citing_Nil
      pat_refs_Nil pat_symbol_Nil pat_stops_Nil pat_spaces_Nil)

lemma preprocess_front_empty: "preprocess U [] ''front'' = Inr []"
  by (simp add: preprocess_def cut_head_empty normalize_empty)

lemma preprocess_body:
  "cut_tail U text stopstrings_body = Inr body
   \<Longrightarrow> preprocess U text ''body'' = Inr (normalize U body)"
  by (simp add: preprocess_def)

lemma scrub_text_fallback:
  assumes "length (split_from separator [] text) < 3"
    and "cut_tail U text stopstrings_body = Inr body"
  shows "scrub_text U text = Inr (lit ''\<newline>'' @ normalize U body)"
  by (simp add: scrub_text_def sections_short [OF assms(1)] preprocess_front_empty
      preprocess_body [OF assms(2)])

text \<open>
  C2. The claim: with fewer than three sections the body is the whole text, no boundary
  cut is applied to it, and the output is a newline followed by the normalized text. The
  document \<open>Ab. Acknowledgements\<close> has one section; its body is cut at the stopstring, and
  the output is a newline followed by \<open>Ab. \<close>, not by the normalized text.
\<close>

theorem fallback_body_is_cut:
  "\<forall>U. length (split_from separator [] (lit ''Ab. Acknowledgements'')) = 1
     \<and> scrub_text U (lit ''Ab. Acknowledgements'') = Inr (lit ''\<newline>Ab. '')
     \<and> lit ''\<newline>'' @ normalize U (lit ''Ab. Acknowledgements'')
         = lit ''\<newline>Ab. Acknowledgements''"
  (is "\<forall>U. ?P U")
proof
  fix U
  show "?P U"
    by code_simp
qed

text \<open>
  C2, amended: with fewer than three sections the front is empty and the body is the
  whole text; the body still goes through the back cut, \<open>cut_tail\<close> with the body
  stopstrings, which returns a prefix of it, and the output is one newline followed by
  the normalized prefix. When no body stopstring occurs in the lowercased text, the
  output is one newline followed by the normalized text. On a text of code points below
  256 the prefix ends at the first case-insensitive occurrence of a body stopstring.
\<close>

theorem fallback_output:
  assumes "length (split_from separator [] text) < 3"
  shows "sections text = ([], text)
    \<and> (\<exists>k. k \<le> length text
          \<and> cut_tail U text stopstrings_body = Inr (take k text)
          \<and> scrub_text U text = Inr (lit ''\<newline>'' @ normalize U (take k text)))
    \<and> ((\<forall>m \<in> set stopstrings_body. find_str (lower U text) m = - 1)
         \<longrightarrow> scrub_text U text = Inr (lit ''\<newline>'' @ normalize U text))
    \<and> ((\<forall>c \<in> set text. c < 256)
         \<longrightarrow> scrub_text U text
             = Inr (lit ''\<newline>''
                 @ normalize U (take (locateBackCut U text stopstrings_body) text)))"
proof (intro conjI impI)
  show "sections text = ([], text)"
    by (rule sections_short [OF assms])
  from cut_tail_prefix [OF stopstrings_body_ne, of "text" U]
  obtain k where k: "k \<le> length text" "cut_tail U text stopstrings_body = Inr (take k text)"
    by blast
  from k scrub_text_fallback [OF assms k(2)]
  show "\<exists>k. k \<le> length text
          \<and> cut_tail U text stopstrings_body = Inr (take k text)
          \<and> scrub_text U text = Inr (lit ''\<newline>'' @ normalize U (take k text))"
    by blast
  show "scrub_text U text = Inr (lit ''\<newline>'' @ normalize U text)"
    if "\<forall>m \<in> set stopstrings_body. find_str (lower U text) m = - 1"
    using that cut_tail_absent [OF stopstrings_body_ne, of U "text"]
      scrub_text_fallback [OF assms, of U "text"]
    by blast
  show "scrub_text U text
      = Inr (lit ''\<newline>'' @ normalize U (take (locateBackCut U text stopstrings_body) text))"
    if "\<forall>c \<in> set text. c < 256"
    using scrub_text_fallback [OF assms cut_tail_latin [OF stopstrings_body_ne that]] .
qed

theorem fallback_output_witness:
  "\<forall>U. length (split_from separator [] (lit ''Ab!====Cd?'')) < 3
     \<and> sections (lit ''Ab!====Cd?'') = ([], lit ''Ab!====Cd?'')
     \<and> scrub_text U (lit ''Ab!====Cd?'') = Inr (lit ''\<newline>Ab. Cd.'')
     \<and> scrub_text U (lit ''Ab. ACKnowledgements'') = Inr (lit ''\<newline>Ab. '')"
  (is "\<forall>U. ?P U")
proof
  fix U
  have 1: "length (split_from separator [] (lit ''Ab!====Cd?'')) < 3"
    by (simp add: separator_def lit_def)
  have 2: "find_str (lower U (lit ''Ab!====Cd?'')) (lit ''acknowledgements'') = - 1"
    by code_simp
  have 3: "find_str (lower U (lit ''Ab!====Cd?'')) (lit ''supporting information'') = - 1"
    by code_simp
  have 4: "\<forall>m \<in> set stopstrings_body. find_str (lower U (lit ''Ab!====Cd?'')) m = - 1"
    using 2 3 by (simp add: stopstrings_body_def)
  have 5: "normalize U (lit ''Ab!====Cd?'') = lit ''Ab. Cd.''"
    by code_simp
  have 6: "length (split_from separator [] (lit ''Ab. ACKnowledgements'')) < 3"
    by (simp add: separator_def lit_def)
  have 7: "\<forall>c \<in> set (lit ''Ab. ACKnowledgements''). c < 256"
    by (simp add: lit_def code_def)
  have 8: "normalize U (take (locateBackCut U (lit ''Ab. ACKnowledgements'') stopstrings_body)
             (lit ''Ab. ACKnowledgements'')) = lit ''Ab. ''"
    by code_simp
  from fallback_output [OF 1, of U] 4
  have a: "sections (lit ''Ab!====Cd?'') = ([], lit ''Ab!====Cd?'')"
    and b: "scrub_text U (lit ''Ab!====Cd?'') = Inr (lit ''\<newline>'' @ normalize U (lit ''Ab!====Cd?''))"
    by blast+
  from fallback_output [OF 6, of U] 7
  have c: "scrub_text U (lit ''Ab. ACKnowledgements'')
      = Inr (lit ''\<newline>'' @ normalize U (take (locateBackCut U (lit ''Ab. ACKnowledgements'')
          stopstrings_body) (lit ''Ab. ACKnowledgements'')))"
    by blast
  from 1 a b c show "?P U"
    unfolding 5 8 by (simp add: lit_def)
qed

section \<open>The end-to-end example\<close>

lemma example_sections:
  "sections example_document =
     (lit '' front\<newline>Copyright 2020, licensed and credited.\<newline>Title Here.\<newline>'',
      lit '' body\<newline>Results [1] show growth (Doe, 2021). Acknowledgements: none.\<newline>'')"
  by (simp add: sections_def split_str_def separator_def example_document_def lit_def)

lemma example_cut_head:
  "cut_head U (lit '' front\<newline>Copyright 2020, licensed and credited.\<newline>Title Here.\<newline>'')
     stopstrings_front = Inr (lit ''\<newline>Title Here.\<newline>'')"
  by code_simp

lemma example_normalize_front:
  "normalize U (lit ''\<newline>Title Here.\<newline>'') = lit ''\<newline>Title Here.\<newline>''"
  by code_simp

lemma example_cut_tail:
  "cut_tail U (lit '' body\<newline>Results [1] show growth (Doe, 2021). Acknowledgements: none.\<newline>'')
     stopstrings_body = Inr (lit '' body\<newline>Results [1] show growth (Doe, 2021). '')"
  by code_simp

lemma example_normalize_body:
  "normalize U (lit '' body\<newline>Results [1] show growth (Doe, 2021). '')
     = lit '' body\<newline>Results show growth . ''"
  by code_simp

lemma example_output:
  "scrub_text U example_document
     = Inr (lit ''\<newline>Title Here.\<newline>\<newline> body\<newline>Results show growth . '')"
  by (simp add: scrub_text_def example_sections preprocess_def example_cut_head
      example_normalize_front example_cut_tail example_normalize_body)
    (simp add: lit_def)

text \<open>
  C3. The claim: on the example document \<open>scrub\<close> writes exactly the title line, a
  newline and \<open>Results show growth.\<close>. The code writes something else: the front keeps
  the line breaks around the title, the body keeps its section label, and the spaces
  that replace the citation and the reference stay before the period and at the end.
\<close>

theorem example_output_differs:
  "\<forall>U. scrub_text U example_document
       = Inr (lit ''\<newline>Title Here.\<newline>\<newline> body\<newline>Results show growth . '')
     \<and> scrub_text U example_document \<noteq> Inr (lit ''Title Here.\<newline>Results show growth.'')"
  by (simp add: example_output) (simp add: lit_def)

text \<open>
  C3, amended: on the example document \<open>scrub\<close> succeeds; the front stopstring
  \<open>credited\<close> cuts the front down to the title line with its line break, preceded by at
  most one boundary character; the body keeps its section label, is cut at
  \<open>Acknowledgements\<close>, and the citation and the reference are each replaced by a space,
  with no trimming. The output is the front, a newline, and the body
  \<open> body\<close>, newline, \<open>Results show growth . \<close>.
\<close>

theorem example_output_amended:
  "\<exists>pre. length pre \<le> 1
     \<and> scrub_text U example_document
         = Inr (pre @ lit ''Title Here.\<newline>'' @ lit ''\<newline>''
             @ lit '' body\<newline>Results show growth . '')"
  by (rule exI [of _ "lit ''\<newline>''"]) (simp add: example_output lit_def)

section \<open>The per-file handler of the batch driver\<close>

lemma scrub_file_failed:
  assumes "os_path_isfile os (os_path_join folder filename) (world st)"
    and "call U os (os_path_join folder filename) (Some output_path) (world st) = (Some e, w')"
  shows "scrub_file U os output_path folder filename st
         = st\<lparr>world := w', printed := printed st @ [Failed (os_path_join folder filename) e],
              nFailed := nFailed st + 1\<rparr>"
  using assms by (simp add: scrub_file_def)

lemma scrub_file_succeeded:
  assumes "os_path_isfile os (os_path_join folder filename) (world st)"
    and "call U os (os_path_join folder filename) (Some output_path) (world st) = (None, w')"
  shows "scrub_file U os output_path folder filename st
         = st\<lparr>world := w', printed := printed st @ [Success (os_path_join folder filename)],
              nScrubbed := nScrubbed st + 1\<rparr>"
  using assms by (simp add: scrub_file_def)

lemma scrub_file_skipped:
  "\<not> os_path_isfile os (os_path_join folder filename) (world st)
   \<Longrightarrow> scrub_file U os output_path folder filename st = st"
  by (simp add: scrub_file_def)

lemma call_mkdir_raises:
  assumes "\<not> os_path_exists os output_path w"
    and "os_mkdir os output_path w = (Some e, w')"
  shows "call U os path (Some output_path) w = (Some e, w')"
  using assms by (simp add: call_def)

text \<open>
  One entry of a folder, in a world that satisfies an invariant \<open>I\<close> of the run: a
  regular file whose scrub succeeds adds one to \<open>nScrubbed\<close>, one whose scrub raises adds
  one to \<open>nFailed\<close>, any other entry changes nothing.
\<close>

lemma scrub_file_step:
  assumes "I (world st)"
    and "os_path_isfile os (os_path_join folder filename) (world st)
         = regular (os_path_join folder filename)"
    and "regular (os_path_join folder filename)
         \<Longrightarrow> (fst (call U os (os_path_join folder filename) (Some output_path) (world st)) = None)
               = scrubs (os_path_join folder filename)
             \<and> I (snd (call U os (os_path_join folder filename) (Some output_path) (world st)))"
  shows "nScrubbed (scrub_file U os output_path folder filename st)
           = nScrubbed st
             + length (filter (\<lambda>p. regular p \<and> scrubs p) [os_path_join folder filename])
       \<and> nFailed (scrub_file U os output_path folder filename st)
           = nFailed st
             + length (filter (\<lambda>p. regular p \<and> \<not> scrubs p) [os_path_join folder filename])
       \<and> I (world (scrub_file U os output_path folder filename st))"
proof (cases "regular (os_path_join folder filename)")
  case False
  with assms(1,2) show ?thesis
    by (simp add: scrub_file_skipped)
next
  case True
  let ?p = "os_path_join folder filename"
  obtain r w' where c: "call U os ?p (Some output_path) (world st) = (r, w')"
    by (cases "call U os ?p (Some output_path) (world st)")
  from assms(3) [OF True] c have s: "(r = None) = scrubs ?p" and i: "I w'"
    by simp_all
  from True assms(2) have f: "os_path_isfile os ?p (world st)"
    by simp
  show ?thesis
  proof (cases r)
    case None
    with scrub_file_succeeded [OF f, of U output_path w'] c s i True show ?thesis
      by simp
  next
    case (Some e)
    with scrub_file_failed [OF f, of U output_path e w'] c s i True show ?thesis
      by simp
  qed
qed

lemma fold_scrub_file:
  assumes "I (world st)"
    and "\<And>f w'. f \<in> set filenames \<Longrightarrow> I w'
           \<Longrightarrow> os_path_isfile os (os_path_join folder f) w' = regular (os_path_join folder f)"
    and "\<And>f w'. f \<in> set filenames \<Longrightarrow> I w' \<Longrightarrow> regular (os_path_join folder f)
           \<Longrightarrow> (fst (call U os (os_path_join folder f) (Some output_path) w') = None)
                 = scrubs (os_path_join folder f)
               \<and> I (snd (call U os (os_path_join folder f) (Some output_path) w'))"
  shows "nScrubbed (fold (scrub_file U os output_path folder) filenames st)
           = nScrubbed st
             + length (filter (\<lambda>p. regular p \<and> scrubs p) (map (os_path_join folder) filenames))
       \<and> nFailed (fold (scrub_file U os output_path folder) filenames st)
           = nFailed st
             + length (filter (\<lambda>p. regular p \<and> \<not> scrubs p) (map (os_path_join folder) filenames))
       \<and> I (world (fold (scrub_file U os output_path folder) filenames st))"
  using assms
proof (induction filenames arbitrary: st)
  case Nil
  then show ?case by simp
next
  case (Cons f fs)
  let ?st = "scrub_file U os output_path folder f st"
  have step: "nScrubbed ?st
        = nScrubbed st + length (filter (\<lambda>p. regular p \<and> scrubs p) [os_path_join folder f])
      \<and> nFailed ?st
        = nFailed st + length (filter (\<lambda>p. regular p \<and> \<not> scrubs p) [os_path_join folder f])
      \<and> I (world ?st)"
  proof (rule scrub_file_step [where I = I and st = st, OF Cons.prems(1)])
    show "os_path_isfile os (os_path_join folder f) (world st) = regular (os_path_join folder f)"
      using Cons.prems(1) by (intro Cons.prems(2)) simp_all
    show "(fst (call U os (os_path_join folder f) (Some output_path) (world st)) = None)
            = scrubs (os_path_join folder f)
          \<and> I (snd (call U os (os_path_join folder f) (Some output_path) (world st)))"
      if "regular (os_path_join folder f)"
      using Cons.prems(1) that by (intro Cons.prems(3)) simp_all
  qed
  then have i: "I (world ?st)"
    by blast
  have rest: "nScrubbed (fold (scrub_file U os output_path folder) fs ?st)
        = nScrubbed ?st
          + length (filter (\<lambda>p. regular p \<and> scrubs p) (map (os_path_join folder) fs))
      \<and> nFailed (fold (scrub_file U os output_path folder) fs ?st)
        = nFailed ?st
          + length (filter (\<lambda>p. regular p \<and> \<not> scrubs p) (map (os_path_join folder) fs))
      \<and> I (world (fold (scrub_file U os output_path folder) fs ?st))"
  proof (rule Cons.IH [OF i])
    show "os_path_isfile os (os_path_join folder g) w' = regular (os_path_join folder g)"
      if "g \<in> set fs" "I w'" for g w'
      using that by (intro Cons.prems(2)) simp_all
    show "(fst (call U os (os_path_join folder g) (Some output_path) w') = None)
            = scrubs (os_path_join folder g)
          \<and> I (snd (call U os (os_path_join folder g) (Some output_path) w'))"
      if "g \<in> set fs" "I w'" "regular (os_path_join folder g)" for g w'
      using that by (intro Cons.prems(3)) simp_all
  qed
  from step rest show ?case
    by simp
qed

text \<open>
  The outer loop over the folders of a corpus whose folders can be listed: it does not
  raise, and it counts every regular file of every folder once.
\<close>

lemma scrub_folders_corpus:
  assumes "I (world st)"
    and "\<And>d w'. d \<in> set names \<Longrightarrow> I w'
           \<Longrightarrow> os_listdir os (os_path_join pmc_folder d) w' = Inr (files d)"
    and "\<And>p w'. p \<in> set (corpus_paths pmc_folder names files) \<Longrightarrow> I w'
           \<Longrightarrow> os_path_isfile os p w' = regular p"
    and "\<And>p w'. p \<in> set (corpus_paths pmc_folder names files) \<Longrightarrow> I w' \<Longrightarrow> regular p
           \<Longrightarrow> (fst (call U os p (Some output_path) w') = None) = scrubs p
               \<and> I (snd (call U os p (Some output_path) w'))"
  shows "fst (scrub_folders U os output_path (map (os_path_join pmc_folder) names) st) = None
       \<and> nScrubbed (snd (scrub_folders U os output_path (map (os_path_join pmc_folder) names) st))
           = nScrubbed st
             + length (filter (\<lambda>p. regular p \<and> scrubs p) (corpus_paths pmc_folder names files))
       \<and> nFailed (snd (scrub_folders U os output_path (map (os_path_join pmc_folder) names) st))
           = nFailed st
             + length (filter (\<lambda>p. regular p \<and> \<not> scrubs p) (corpus_paths pmc_folder names files))
       \<and> I (world (snd (scrub_folders U os output_path (map (os_path_join pmc_folder) names) st)))"
  using assms
proof (induction names arbitrary: st)
  case Nil
  then show ?case
    by (simp add: corpus_paths_def)
next
  case (Cons d ds)
  let ?folder = "os_path_join pmc_folder d"
  let ?st0 = "st\<lparr>printed := printed st @ [Started ?folder]\<rparr>"
  let ?st1 = "fold (scrub_file U os output_path ?folder) (files d) ?st0"
  have paths: "corpus_paths pmc_folder (d # ds) files
      = map (os_path_join ?folder) (files d) @ corpus_paths pmc_folder ds files"
    by (simp add: corpus_paths_def)
  have l: "os_listdir os ?folder (world st) = Inr (files d)"
    using Cons.prems(1) by (intro Cons.prems(2)) simp_all
  have i0: "I (world ?st0)"
    using Cons.prems(1) by simp
  have inner: "nScrubbed ?st1
        = nScrubbed ?st0
          + length (filter (\<lambda>p. regular p \<and> scrubs p) (map (os_path_join ?folder) (files d)))
      \<and> nFailed ?st1
        = nFailed ?st0
          + length (filter (\<lambda>p. regular p \<and> \<not> scrubs p) (map (os_path_join ?folder) (files d)))
      \<and> I (world ?st1)"
  proof (rule fold_scrub_file [where I = I and st = ?st0, OF i0])
    show "os_path_isfile os (os_path_join ?folder f) w' = regular (os_path_join ?folder f)"
      if "f \<in> set (files d)" "I w'" for f w'
      using that by (intro Cons.prems(3)) (simp_all add: paths)
    show "(fst (call U os (os_path_join ?folder f) (Some output_path) w') = None)
            = scrubs (os_path_join ?folder f)
          \<and> I (snd (call U os (os_path_join ?folder f) (Some output_path) w'))"
      if "f \<in> set (files d)" "I w'" "regular (os_path_join ?folder f)" for f w'
      using that by (intro Cons.prems(4)) (simp_all add: paths)
  qed
  then have i1: "I (world ?st1)"
    by blast
  have outer: "fst (scrub_folders U os output_path (map (os_path_join pmc_folder) ds) ?st1) = None
      \<and> nScrubbed (snd (scrub_folders U os output_path (map (os_path_join pmc_folder) ds) ?st1))
          = nScrubbed ?st1
            + length (filter (\<lambda>p. regular p \<and> scrubs p) (corpus_paths pmc_folder ds files))
      \<and> nFailed (snd (scrub_folders U os output_path (map (os_path_join pmc_folder) ds) ?st1))
          = nFailed ?st1
            + length (filter (\<lambda>p. regular p \<and> \<not> scrubs p) (corpus_paths pmc_folder ds files))
      \<and> I (world (snd (scrub_folders U os output_path (map (os_path_join pmc_folder) ds) ?st1)))"
  proof (rule Cons.IH [OF i1])
    show "os_listdir os (os_path_join pmc_folder e) w' = Inr (files e)"
      if "e \<in> set ds" "I w'" for e w'
      using that by (intro Cons.prems(2)) simp_all
    show "os_path_isfile os p w' = regular p"
      if "p \<in> set (corpus_paths pmc_folder ds files)" "I w'" for p w'
      using that by (intro Cons.prems(3)) (simp_all add: paths)
    show "(fst (call U os p (Some output_path) w') = None) = scrubs p
          \<and> I (snd (call U os p (Some output_path) w'))"
      if "p \<in> set (corpus_paths pmc_folder ds files)" "I w'" "regular p" for p w'
      using that by (intro Cons.prems(4)) (simp_all add: paths)
  qed
  have unfold: "scrub_folders U os output_path (map (os_path_join pmc_folder) (d # ds)) st
      = scrub_folders U os output_path (map (os_path_join pmc_folder) ds) ?st1"
    using l by simp
  from inner outer show ?case
    unfolding unfold paths by simp
qed

lemma scrub_pmc_folders:
  assumes "os_listdir os pmc_folder w = Inr names"
  shows "scrub_pmc U os pmc_folder w
         = scrub_folders U os (output_path_of pmc_folder) (map (os_path_join pmc_folder) names)
             \<lparr>world = w, nScrubbed = 0, nFailed = 0, printed = []\<rparr>"
  using assms by (simp add: scrub_pmc_def output_path_of_def Let_def)

section \<open>Failures of one file in a batch run\<close>

lemma corpus_isfile_1: "os_path_isfile mem_os (os_path_join ''data/pmc/a'' ''1.txt'') (corpus b)"
  by (simp add: mem_os_def corpus_def os_path_join_def)

lemma corpus_no_output_dir: "\<not> os_path_exists mem_os ''data/pmc_preprocessed'' (corpus b)"
  by (simp add: mem_os_def corpus_def)

lemma corpus_mkdir_denied:
  "os_mkdir mem_os ''data/pmc_preprocessed'' (corpus False) = (Some OSError, corpus False)"
  by (simp add: mem_os_def corpus_def)

lemma corpus_run_denied:
  "(\<lambda>(r, st). (r, nScrubbed st, nFailed st, printed st))
     (scrub_pmc U mem_os ''data/pmc'' (corpus False))
   = (None, 0, 3,
      [Started ''data/pmc/a'', Failed ''data/pmc/a/1.txt'' OSError,
       Failed ''data/pmc/a/2.txt'' OSError, Started ''data/pmc/b'',
       Failed ''data/pmc/b/3.txt'' OSError])"
  by code_simp

text \<open>
  C4. The claim: in a batch run an error raised while creating the output directory
  leaves \<open>scrub_pmc\<close> uncaught and is not counted as a failure of a file. On a corpus of
  three files whose output directory cannot be created, \<open>os.mkdir\<close> raises in every
  call; \<open>scrub_pmc\<close> returns normally and reports three failed files.
\<close>

theorem mkdir_error_is_counted:
  "\<forall>U. os_mkdir mem_os ''data/pmc_preprocessed'' (corpus False) = (Some OSError, corpus False)
     \<and> fst (scrub_pmc U mem_os ''data/pmc'' (corpus False)) = None
     \<and> nScrubbed (snd (scrub_pmc U mem_os ''data/pmc'' (corpus False))) = 0
     \<and> nFailed (snd (scrub_pmc U mem_os ''data/pmc'' (corpus False))) = 3"
  using corpus_run_denied corpus_mkdir_denied
  by (simp add: case_prod_beta)

text \<open>
  C4, amended: in a batch run the output directory is created inside the scrub of a
  file; an error raised while creating it makes that scrub raise, is caught by the
  per-file handler, is counted as a failure of that file, and the run goes on with the
  remaining files.
\<close>

theorem mkdir_error_is_per_file_failure:
  assumes "os_path_isfile os (os_path_join folder filename) (world st)"
    and "\<not> os_path_exists os output_path (world st)"
    and "os_mkdir os output_path (world st) = (Some e, w')"
  shows "call U os (os_path_join folder filename) (Some output_path) (world st) = (Some e, w')
    \<and> scrub_file U os output_path folder filename st
        = st\<lparr>world := w', printed := printed st @ [Failed (os_path_join folder filename) e],
             nFailed := nFailed st + 1\<rparr>
    \<and> fold (scrub_file U os output_path folder) (filename # rest) st
        = fold (scrub_file U os output_path folder) rest
            (st\<lparr>world := w', printed := printed st @ [Failed (os_path_join folder filename) e],
                nFailed := nFailed st + 1\<rparr>)"
  using scrub_file_failed [OF assms(1) call_mkdir_raises [OF assms(2,3)]]
    call_mkdir_raises [OF assms(2,3)]
  by simp

theorem mkdir_error_is_per_file_failure_witness:
  "\<forall>U. os_path_isfile mem_os (os_path_join ''data/pmc/a'' ''1.txt'') (corpus False)
     \<and> \<not> os_path_exists mem_os ''data/pmc_preprocessed'' (corpus False)
     \<and> os_mkdir mem_os ''data/pmc_preprocessed'' (corpus False) = (Some OSError, corpus False)
     \<and> scrub_file U mem_os ''data/pmc_preprocessed'' ''data/pmc/a'' ''1.txt''
          \<lparr>world = corpus False, nScrubbed = 0, nFailed = 0, printed = []\<rparr>
        = \<lparr>world = corpus False, nScrubbed = 0, nFailed = 1,
           printed = [Failed (os_path_join ''data/pmc/a'' ''1.txt'') OSError]\<rparr>"
  (is "\<forall>U. ?P U")
proof
  fix U
  let ?st = "\<lparr>world = corpus False, nScrubbed = 0, nFailed = 0, printed = []\<rparr>"
  have 1: "os_path_isfile mem_os (os_path_join ''data/pmc/a'' ''1.txt'') (world ?st)"
    using corpus_isfile_1 by simp
  have 2: "\<not> os_path_exists mem_os ''data/pmc_preprocessed'' (world ?st)"
    using corpus_no_output_dir by simp
  have 3: "os_mkdir mem_os ''data/pmc_preprocessed'' (world ?st) = (Some OSError, corpus False)"
    using corpus_mkdir_denied by simp
  from mkdir_error_is_per_file_failure [OF 1 2 3, of U "[]"] 1 2 3 show "?P U"
    by simp
qed

section \<open>A batch run over a corpus\<close>

lemma stray_corpus_run:
  "(\<lambda>(r, st). (r, nScrubbed st, nFailed st, printed st))
     (scrub_pmc U mem_os ''data/pmc'' stray_corpus)
   = (Some OSError, 2, 1,
      [Started ''data/pmc/a'', Success ''data/pmc/a/1.txt'',
       Failed ''data/pmc/a/2.txt'' UnicodeDecodeError,
       Started ''data/pmc/b'', Success ''data/pmc/b/3.txt'',
       Started ''data/pmc/README''])"
  by code_simp

lemma stray_corpus_listdir:
  "os_path_isfile mem_os ''data/pmc/README'' stray_corpus
   \<and> os_listdir mem_os ''data/pmc/README'' stray_corpus = Inl OSError"
  by (simp add: mem_os_def stray_corpus_def corpus_def)

lemma scrub_text_corpus_1: "scrub_text U (lit ''====T====B!'') = Inr (lit ''T\<newline>B.'')"
  by code_simp

lemma scrub_text_corpus_3: "scrub_text U (lit ''Hi?'') = Inr (lit ''\<newline>Hi.'')"
  by code_simp

lemma corpus_output_path: "output_path_of ''data/pmc'' = ''data/pmc_preprocessed''"
  by (simp add: output_path_of_def path_split_def output_folder_def os_path_join_def)

lemma corpus_paths_corpus:
  "corpus_paths ''data/pmc'' [''a'', ''b'']
     (\<lambda>d. if d = ''a'' then [''1.txt'', ''2.txt'', ''notes''] else [''3.txt''])
   = [''data/pmc/a/1.txt'', ''data/pmc/a/2.txt'', ''data/pmc/a/notes'', ''data/pmc/b/3.txt'']"
  by (simp add: corpus_paths_def os_path_join_def)

lemma call_mem_os_scrubs:
  assumes "may_mkdir w" and "map_of (contents w) p = Some (Some text)"
    and "scrub_text U text = Inr out"
  shows "\<exists>w1. call U mem_os p (Some d) w = (None, w1) \<and> may_mkdir w1
      \<and> (\<forall>q. q \<noteq> d \<longrightarrow> map_of (listing w1) q = map_of (listing w) q)
      \<and> (\<forall>q. q \<noteq> os_path_join d (last (path_split p))
            \<longrightarrow> map_of (contents w1) q = map_of (contents w) q)"
  using assms by (simp add: call_def mem_os_def)

lemma call_mem_os_unreadable:
  assumes "may_mkdir w" and "map_of (contents w) p = Some None"
  shows "\<exists>w1. call U mem_os p (Some d) w = (Some UnicodeDecodeError, w1) \<and> may_mkdir w1
      \<and> (\<forall>q. q \<noteq> d \<longrightarrow> map_of (listing w1) q = map_of (listing w) q)
      \<and> contents w1 = contents w"
  using assms by (simp add: call_def mem_os_def)

lemma written_paths:
  "os_path_join ''data/pmc_preprocessed'' (last (path_split ''data/pmc/a/1.txt''))
     = ''data/pmc_preprocessed/1.txt''"
  "os_path_join ''data/pmc_preprocessed'' (last (path_split ''data/pmc/b/3.txt''))
     = ''data/pmc_preprocessed/3.txt''"
  by (simp_all add: path_split_def os_path_join_def)

text \<open>
  C8. The claim: on every corpus in which the scrub of exactly one file raises and two
  succeed, \<open>scrub_pmc\<close> reports 2 and 1 and does not itself raise. The folders of the
  corpus are listed outside any handler. On a corpus with two files that scrub, one that
  cannot be decoded and a regular file \<open>README\<close> beside the folders, the listing of
  \<open>README\<close> raises after the three files are done, and the exception leaves \<open>scrub_pmc\<close>.
\<close>

theorem stray_file_raises:
  "\<forall>U. os_path_isfile mem_os ''data/pmc/README'' stray_corpus
     \<and> os_listdir mem_os ''data/pmc/README'' stray_corpus = Inl OSError
     \<and> fst (scrub_pmc U mem_os ''data/pmc'' stray_corpus) = Some OSError
     \<and> nScrubbed (snd (scrub_pmc U mem_os ''data/pmc'' stray_corpus)) = 2
     \<and> nFailed (snd (scrub_pmc U mem_os ''data/pmc'' stray_corpus)) = 1"
  using stray_corpus_run stray_corpus_listdir
  by (simp add: case_prod_beta)

text \<open>
  C8, amended. Take a corpus directory that holds the folders \<open>names\<close>, each folder \<open>d\<close>
  holding the entries \<open>files d\<close>, and a property \<open>I\<close> of the world that holds at the
  start and after every scrub of a file of the corpus. Suppose that, as long as \<open>I\<close>
  holds, every folder can be listed, the regular files among the entries are those of
  \<open>regular\<close>, and the scrub of a regular file returns or raises as \<open>scrubs\<close> tells. Then
  \<open>scrub_pmc\<close> does not raise, \<open>nScrubbed\<close> is the number of regular files whose scrub
  returns and \<open>nFailed\<close> the number of regular files whose scrub raises: an exception
  raised by the scrub of one file adds one to \<open>nFailed\<close> and the run goes on with the
  remaining files. With two files that scrub and one that raises the run reports 2 and 1.
\<close>

theorem scrub_pmc_isolates_failures:
  assumes "I w"
    and "os_listdir os pmc_folder w = Inr names"
    and "\<And>d w'. d \<in> set names \<Longrightarrow> I w'
           \<Longrightarrow> os_listdir os (os_path_join pmc_folder d) w' = Inr (files d)"
    and "\<And>p w'. p \<in> set (corpus_paths pmc_folder names files) \<Longrightarrow> I w'
           \<Longrightarrow> os_path_isfile os p w' = regular p"
    and "\<And>p w'. p \<in> set (corpus_paths pmc_folder names files) \<Longrightarrow> I w' \<Longrightarrow> regular p
           \<Longrightarrow> (fst (call U os p (Some (output_path_of pmc_folder)) w') = None) = scrubs p
               \<and> I (snd (call U os p (Some (output_path_of pmc_folder)) w'))"
  shows "fst (scrub_pmc U os pmc_folder w) = None
    \<and> nScrubbed (snd (scrub_pmc U os pmc_folder w))
        = length (filter (\<lambda>p. regular p \<and> scrubs p) (corpus_paths pmc_folder names files))
    \<and> nFailed (snd (scrub_pmc U os pmc_folder w))
        = length (filter (\<lambda>p. regular p \<and> \<not> scrubs p) (corpus_paths pmc_folder names files))
    \<and> I (world (snd (scrub_pmc U os pmc_folder w)))"
proof -
  let ?st = "\<lparr>world = w, nScrubbed = 0, nFailed = 0, printed = []\<rparr>"
  have i: "I (world ?st)"
    using assms(1) by simp
  from scrub_folders_corpus [where I = I and st = ?st and regular = regular
      and scrubs = scrubs and output_path = "output_path_of pmc_folder",
      OF i assms(3) assms(4) assms(5)]
  show ?thesis
    unfolding scrub_pmc_folders [OF assms(2)] by simp
qed

theorem scrub_pmc_isolates_failures_witness:
  "\<forall>U. fst (scrub_pmc U mem_os ''data/pmc'' (corpus True)) = None
     \<and> nScrubbed (snd (scrub_pmc U mem_os ''data/pmc'' (corpus True))) = 2
     \<and> nFailed (snd (scrub_pmc U mem_os ''data/pmc'' (corpus True))) = 1"
  (is "\<forall>U. ?P U")
proof
  fix U
  define I where "I = (\<lambda>w :: fs. may_mkdir w
      \<and> map_of (listing w) ''data/pmc/a'' = Some [''1.txt'', ''2.txt'', ''notes'']
      \<and> map_of (listing w) ''data/pmc/b'' = Some [''3.txt'']
      \<and> map_of (contents w) ''data/pmc/a/1.txt'' = Some (Some (lit ''====T====B!''))
      \<and> map_of (contents w) ''data/pmc/a/2.txt'' = Some None
      \<and> map_of (contents w) ''data/pmc/a/notes'' = None
      \<and> map_of (contents w) ''data/pmc/b/3.txt'' = Some (Some (lit ''Hi?'')))"
  define files where
    "files = (\<lambda>d. if d = ''a'' then [''1.txt'', ''2.txt'', ''notes''] else [''3.txt''])"
  define regular where "regular = (\<lambda>p. p \<noteq> ''data/pmc/a/notes'')"
  define scrubs where "scrubs = (\<lambda>p. p \<noteq> ''data/pmc/a/2.txt'')"
  have paths: "corpus_paths ''data/pmc'' [''a'', ''b''] files
      = [''data/pmc/a/1.txt'', ''data/pmc/a/2.txt'', ''data/pmc/a/notes'', ''data/pmc/b/3.txt'']"
    unfolding files_def by (rule corpus_paths_corpus)
  have 1: "I (corpus True)"
    by (simp add: I_def corpus_def)
  have 2: "os_listdir mem_os ''data/pmc'' (corpus True) = Inr [''a'', ''b'']"
    by (simp add: mem_os_def corpus_def)
  have 3: "os_listdir mem_os (os_path_join ''data/pmc'' d) w' = Inr (files d)"
    if "d \<in> set [''a'', ''b'']" "I w'" for d w'
    using that by (auto simp: I_def files_def mem_os_def os_path_join_def)
  have 4: "os_path_isfile mem_os p w' = regular p"
    if "p \<in> set (corpus_paths ''data/pmc'' [''a'', ''b''] files)" "I w'" for p w'
    using that unfolding paths by (auto simp: I_def regular_def mem_os_def)
  have 5: "(fst (call U mem_os p (Some (output_path_of ''data/pmc'')) w') = None) = scrubs p
      \<and> I (snd (call U mem_os p (Some (output_path_of ''data/pmc'')) w'))"
    if p: "p \<in> set (corpus_paths ''data/pmc'' [''a'', ''b''] files)" and i: "I w'"
      and r: "regular p" for p w'
  proof -
    from p r consider "p = ''data/pmc/a/1.txt''" | "p = ''data/pmc/a/2.txt''"
      | "p = ''data/pmc/b/3.txt''"
      unfolding paths regular_def by auto
    then show ?thesis
    proof cases
      case 1
      from i have "may_mkdir w'"
        and "map_of (contents w') ''data/pmc/a/1.txt'' = Some (Some (lit ''====T====B!''))"
        by (simp_all add: I_def)
      from call_mem_os_scrubs [OF this scrub_text_corpus_1, of U "''data/pmc_preprocessed''"]
      obtain w1 where w1:
        "call U mem_os ''data/pmc/a/1.txt'' (Some ''data/pmc_preprocessed'') w' = (None, w1)"
        "may_mkdir w1"
        "\<forall>q. q \<noteq> ''data/pmc_preprocessed'' \<longrightarrow> map_of (listing w1) q = map_of (listing w') q"
        "\<forall>q. q \<noteq> ''data/pmc_preprocessed/1.txt''
           \<longrightarrow> map_of (contents w1) q = map_of (contents w') q"
        unfolding written_paths by blast
      from w1(2-4) i have "I w1"
        by (simp add: I_def)
      with w1(1) 1 show ?thesis
        by (simp add: corpus_output_path scrubs_def)
    next
      case 2
      from i have "may_mkdir w'" and "map_of (contents w') ''data/pmc/a/2.txt'' = Some None"
        by (simp_all add: I_def)
      from call_mem_os_unreadable [OF this, of U "''data/pmc_preprocessed''"]
      obtain w1 where w1:
        "call U mem_os ''data/pmc/a/2.txt'' (Some ''data/pmc_preprocessed'') w'
           = (Some UnicodeDecodeError, w1)"
        "may_mkdir w1"
        "\<forall>q. q \<noteq> ''data/pmc_preprocessed'' \<longrightarrow> map_of (listing w1) q = map_of (listing w') q"
        "contents w1 = contents w'"
        by blast
      from w1(2-4) i have "I w1"
        by (simp add: I_def)
      with w1(1) 2 show ?thesis
        by (simp add: corpus_output_path scrubs_def)
    next
      case 3
      from i have "may_mkdir w'"
        and "map_of (contents w') ''data/pmc/b/3.txt'' = Some (Some (lit ''Hi?''))"
        by (simp_all add: I_def)
      from call_mem_os_scrubs [OF this scrub_text_corpus_3, of U "''data/pmc_preprocessed''"]
      obtain w1 where w1:
        "call U mem_os ''data/pmc/b/3.txt'' (Some ''data/pmc_preprocessed'') w' = (None, w1)"
        "may_mkdir w1"
        "\<forall>q. q \<noteq> ''data/pmc_preprocessed'' \<longrightarrow> map_of (listing w1) q = map_of (listing w') q"
        "\<forall>q. q \<noteq> ''data/pmc_preprocessed/3.txt''
           \<longrightarrow> map_of (contents w1) q = map_of (contents w') q"
        unfolding written_paths by blast
      from w1(2-4) i have "I w1"
        by (simp add: I_def)
      with w1(1) 3 show ?thesis
        by (simp add: corpus_output_path scrubs_def)
    qed
  qed
  from scrub_pmc_isolates_failures [where I = I and os = mem_os and w = "corpus True"
      and pmc_folder = "''data/pmc''" and names = "[''a'', ''b'']" and files = files
      and regular = regular and scrubs = scrubs and U = U, OF 1 2 3 4 5]
  show "?P U"
    unfolding paths by (simp add: regular_def scrubs_def)
qed

end
